theory Spec2Isabelle
  imports Complex_Main "HOL-Library.List_Lexorder"
begin

section \<open>Python text\<close>

text \<open>
  A Python \<^verbatim>\<open>str\<close> is a sequence of Unicode code points. The regular expressions of
  both scripts are compiled from \<^verbatim>\<open>str\<close> patterns without the ASCII flag, so
  \<^verbatim>\<open>\d\<close> is every code point of category Nd, \<^verbatim>\<open>\s\<close> is every
  code point for which \<^verbatim>\<open>str.isspace\<close> holds, and \<^verbatim>\<open>int\<close> reads every Nd digit.
\<close>

type_synonym codepoint = nat
type_synonym pystr = "codepoint list"

definition ustr :: "string \<Rightarrow> pystr" where
  "ustr s = map of_char s"

text \<open>
  The decimal digits (category Nd) of Unicode 14.0, given by the code point of each zero digit;
  the nine code points after a zero are the digits one to nine. Later Unicode versions add
  further blocks of the same shape.
\<close>

definition nd_zeros :: "codepoint list" where
  "nd_zeros =
    [0x30, 0x660, 0x6f0, 0x7c0, 0x966, 0x9e6, 0xa66, 0xae6, 0xb66, 0xbe6, 0xc66, 0xce6,
     0xd66, 0xde6, 0xe50, 0xed0, 0xf20, 0x1040, 0x1090, 0x17e0, 0x1810, 0x1946, 0x19d0,
     0x1a80, 0x1a90, 0x1b50, 0x1bb0, 0x1c40, 0x1c50, 0xa620, 0xa8d0, 0xa900, 0xa9d0,
     0xa9f0, 0xaa50, 0xabf0, 0xff10, 0x104a0, 0x10d30, 0x11066, 0x110f0, 0x11136,
     0x111d0, 0x112f0, 0x11450, 0x114d0, 0x11650, 0x116c0, 0x11730, 0x118e0, 0x11950,
     0x11c50, 0x11d50, 0x11da0, 0x16a60, 0x16ac0, 0x16b50,
     0x1d7ce, 0x1d7d8, 0x1d7e2, 0x1d7ec, 0x1d7f6,
     0x1e140, 0x1e2f0, 0x1e950, 0x1fbf0]"

definition digit_value :: "codepoint \<Rightarrow> nat option" where
  "digit_value c = map_option (\<lambda>z. c - z) (find (\<lambda>z. z \<le> c \<and> c < z + 10) nd_zeros)"

text \<open>\<^verbatim>\<open>int(s)\<close> on a string of decimal digits, given the digit values.\<close>

definition py_int :: "nat list \<Rightarrow> int" where
  "py_int ds = foldl (\<lambda>a d. 10 * a + int d) 0 ds"

section \<open>The fetcher: \<^verbatim>\<open>download_noaa.py\<close>\<close>

datatype py_error =
    RuntimeError
  | FileNotFoundError
  | OverflowError
  | HTTPError
  | ConnectionError
  | ValueError
  | BadGzipFile

subsection \<open>\<^verbatim>\<open>DETAILS_PATTERN\<close>\<close>

text \<open>A literal piece of a pattern, matched at the head of the text; the rest is returned.\<close>

fun lit :: "pystr \<Rightarrow> pystr \<Rightarrow> pystr option" where
  "lit [] s = Some s"
| "lit (p # ps) [] = None"
| "lit (p # ps) (c # cs) = (if p = c then lit ps cs else None)"

text \<open>\<^verbatim>\<open>\d{n}\<close> at the head of the text: the digit values and the rest.\<close>

fun digits :: "nat \<Rightarrow> pystr \<Rightarrow> (nat list \<times> pystr) option" where
  "digits 0 s = Some ([], s)"
| "digits (Suc n) [] = None"
| "digits (Suc n) (c # cs) =
     (case digit_value c of
        None \<Rightarrow> None
      | Some d \<Rightarrow> (case digits n cs of None \<Rightarrow> None | Some (ds, r) \<Rightarrow> Some (d # ds, r)))"

text \<open>
  \<^verbatim>\<open>(StormEvents_details-ftp_v1\.0_d(?P<year>\d{4})_c(?P<cdate>\d{8})\.csv\.gz)\<close>
  matched at the head of the text. The result is \<^verbatim>\<open>int(m.group("year"))\<close>,
  \<^verbatim>\<open>int(m.group("cdate"))\<close> and \<^verbatim>\<open>m.group(1)\<close>.
\<close>

definition DETAILS_PATTERN :: "pystr \<Rightarrow> (int \<times> int \<times> pystr) option" where
  "DETAILS_PATTERN s =
     (case lit (ustr ''StormEvents_details-ftp_v1.0_d'') s of None \<Rightarrow> None | Some r1 \<Rightarrow>
      case digits 4 r1 of None \<Rightarrow> None | Some (yd, r2) \<Rightarrow>
      case lit (ustr ''_c'') r2 of None \<Rightarrow> None | Some r3 \<Rightarrow>
      case digits 8 r3 of None \<Rightarrow> None | Some (cd, r4) \<Rightarrow>
      case lit (ustr ''.csv.gz'') r4 of None \<Rightarrow> None | Some r5 \<Rightarrow>
        Some (py_int yd, py_int cd, take (length s - length r5) s))"

lemma lit_Some: "lit p s = Some r \<longleftrightarrow> s = p @ r"
  by (induction p s rule: lit.induct) auto

lemma digits_Some:
  "digits n s = Some (ds, r) \<Longrightarrow>
     length s = n + length r \<and> length ds = n \<and> drop n s = r \<and>
     map digit_value (take n s) = map Some ds"
proof (induction n s arbitrary: ds r rule: digits.induct)
  case (1 s)
  then show ?case by simp
next
  case (2 n)
  then show ?case by simp
next
  case (3 n c cs)
  from "3.prems" obtain d ds' where d: "digit_value c = Some d"
    and rec: "digits n cs = Some (ds', r)" and ds: "ds = d # ds'"
    by (auto split: option.splits)
  from "3.IH"[OF d rec] d ds show ?case by simp
qed

lemma DETAILS_PATTERN_length:
  assumes "DETAILS_PATTERN s = Some (y, c, f)"
  shows "length f = 51 \<and> f = take 51 s \<and> 51 \<le> length s"
proof -
  from assms obtain r1 yd r2 r3 cd r4 r5 where
    l1: "lit (ustr ''StormEvents_details-ftp_v1.0_d'') s = Some r1" and
    d1: "digits 4 r1 = Some (yd, r2)" and
    l2: "lit (ustr ''_c'') r2 = Some r3" and
    d2: "digits 8 r3 = Some (cd, r4)" and
    l3: "lit (ustr ''.csv.gz'') r4 = Some r5" and
    f: "f = take (length s - length r5) s"
    unfolding DETAILS_PATTERN_def by (auto split: option.splits)
  have "length s = 30 + length r1" using l1 by (simp add: lit_Some ustr_def)
  moreover have "length r1 = 4 + length r2" using digits_Some[OF d1] by simp
  moreover have "length r2 = 2 + length r3" using l2 by (simp add: lit_Some ustr_def)
  moreover have "length r3 = 8 + length r4" using digits_Some[OF d2] by simp
  moreover have "length r4 = 7 + length r5" using l3 by (simp add: lit_Some ustr_def)
  ultimately have "length s = 51 + length r5" by simp
  with f show ?thesis by simp
qed

subsection \<open>\<^verbatim>\<open>build_latest_file_map\<close>\<close>

text \<open>
  \<^verbatim>\<open>DETAILS_PATTERN.finditer(html)\<close>: the text is scanned from left to right; after a
  match the scan resumes at the end of the match, otherwise one code point further.
\<close>

function finditer :: "pystr \<Rightarrow> (int \<times> int \<times> pystr) list" where
  "finditer [] = []"
| "finditer (c # cs) =
     (case DETAILS_PATTERN (c # cs) of
        Some (year, cdate, fname) \<Rightarrow>
          (year, cdate, fname) # finditer (drop (length fname) (c # cs))
      | None \<Rightarrow> finditer cs)"
  by pat_completeness auto
termination
proof (relation "measure length")
  show "wf (measure length)" by simp
next
  fix c cs x2 year y cdate fname
  assume "DETAILS_PATTERN (c # cs) = Some x2" "(year, y) = x2" "(cdate, fname) = y"
  then have "DETAILS_PATTERN (c # cs) = Some (year, cdate, fname)" by simp
  from DETAILS_PATTERN_length[OF this]
  show "(drop (length fname) (c # cs), c # cs) \<in> measure length" by simp
next
  fix c cs
  show "(cs, c # cs) \<in> measure length" by simp
qed

text \<open>
  One step of the loop that keeps the latest revision per year:
  \<^verbatim>\<open>if (year not in latest) or (cdate > latest[year][0]): latest[year] = (cdate, fname)\<close>.
\<close>

definition keep_latest ::
  "(int \<rightharpoonup> int \<times> pystr) \<Rightarrow> int \<times> int \<times> pystr \<Rightarrow> (int \<rightharpoonup> int \<times> pystr)" where
  "keep_latest latest m =
     (case m of (year, cdate, fname) \<Rightarrow>
        (case latest year of
           None \<Rightarrow> latest(year \<mapsto> (cdate, fname))
         | Some (c0, f0) \<Rightarrow> if cdate > c0 then latest(year \<mapsto> (cdate, fname)) else latest))"

definition build_latest_file_map :: "pystr \<Rightarrow> py_error + (int \<rightharpoonup> pystr)" where
  "build_latest_file_map html =
     (let matches = finditer html in
      if matches = [] then Inl RuntimeError
      else Inr (map_option snd \<circ> foldl keep_latest Map.empty matches))"


definition details_file :: "pystr \<Rightarrow> (int \<times> int) option" where
  "details_file f =
     (case DETAILS_PATTERN f of
        Some (y, c, g) \<Rightarrow> if g = f then Some (y, c) else None
      | None \<Rightarrow> None)"

lemma digits_iff:
  "digits n s = Some (ds, r) \<longleftrightarrow>
     (\<exists>cs. s = cs @ r \<and> length cs = n \<and> map digit_value cs = map Some ds)"
proof (induction n s arbitrary: ds r rule: digits.induct)
  case (1 s)
  then show ?case by auto
next
  case (2 n)
  then show ?case by auto
next
  case (3 n c cs)
  show ?case
  proof (cases "digit_value c")
    case None
    then show ?thesis by (auto simp: Cons_eq_append_conv)
  next
    case (Some d)
    show ?thesis
    proof
      assume "digits (Suc n) (c # cs) = Some (ds, r)"
      with Some obtain ds' where rec: "digits n cs = Some (ds', r)" and ds: "ds = d # ds'"
        by (auto split: option.splits)
      from "3.IH"[OF Some, of ds' r] rec obtain cs' where
        "cs = cs' @ r" "length cs' = n" "map digit_value cs' = map Some ds'" by auto
      with Some ds show "\<exists>cs'. c # cs = cs' @ r \<and> length cs' = Suc n \<and> map digit_value cs' = map Some ds"
        by (intro exI[of _ "c # cs'"]) simp
    next
      assume "\<exists>cs'. c # cs = cs' @ r \<and> length cs' = Suc n \<and> map digit_value cs' = map Some ds"
      then obtain cs' where a: "c # cs = cs' @ r" "length cs' = Suc n" "map digit_value cs' = map Some ds"
        by auto
      then obtain cs'' where cs': "cs' = c # cs''" by (cases cs') auto
      with a Some obtain ds' where ds: "ds = d # ds'" and m: "map digit_value cs'' = map Some ds'"
        by (cases ds) auto
      from a cs' have "cs = cs'' @ r" "length cs'' = n" by auto
      with m "3.IH"[OF Some, of ds' r] have "digits n cs = Some (ds', r)" by auto
      with Some ds show "digits (Suc n) (c # cs) = Some (ds, r)" by simp
    qed
  qed
qed

definition lit_head :: pystr where "lit_head = ustr ''StormEvents_details-ftp_v1.0_d''"
definition lit_mid :: pystr where "lit_mid = ustr ''_c''"
definition lit_tail :: pystr where "lit_tail = ustr ''.csv.gz''"

lemma DETAILS_PATTERN_iff:
  "DETAILS_PATTERN s = Some (y, c, f) \<longleftrightarrow>
     (\<exists>ys cs yd cd r. s = f @ r \<and> f = lit_head @ ys @ lit_mid @ cs @ lit_tail \<and>
        length ys = 4 \<and> length cs = 8 \<and>
        map digit_value ys = map Some yd \<and> map digit_value cs = map Some cd \<and>
        y = py_int yd \<and> c = py_int cd)"
  (is "?l \<longleftrightarrow> ?r")
proof
  assume ?l
  then obtain r1 yd r2 r3 cd r4 r5 where
    l1: "lit lit_head s = Some r1" and
    d1: "digits 4 r1 = Some (yd, r2)" and
    l2: "lit lit_mid r2 = Some r3" and
    d2: "digits 8 r3 = Some (cd, r4)" and
    l3: "lit lit_tail r4 = Some r5" and
    f: "f = take (length s - length r5) s" and y: "y = py_int yd" and c: "c = py_int cd"
    unfolding DETAILS_PATTERN_def lit_head_def lit_mid_def lit_tail_def by (auto split: option.splits)
  from d1 obtain ys where ys: "r1 = ys @ r2" "length ys = 4" "map digit_value ys = map Some yd"
    unfolding digits_iff by auto
  from d2 obtain cs where cs: "r3 = cs @ r4" "length cs = 8" "map digit_value cs = map Some cd"
    unfolding digits_iff by auto
  have s: "s = (lit_head @ ys @ lit_mid @ cs @ lit_tail) @ r5"
    using l1 l2 l3 ys cs by (simp add: lit_Some)
  then have "f = lit_head @ ys @ lit_mid @ cs @ lit_tail" using f by simp
  with s ys cs y c show ?r by blast
next
  assume ?r
  then obtain ys cs yd cd r where s: "s = f @ r" and f: "f = lit_head @ ys @ lit_mid @ cs @ lit_tail" and
    ys: "length ys = 4" "map digit_value ys = map Some yd" and
    cs: "length cs = 8" "map digit_value cs = map Some cd" and
    y: "y = py_int yd" and c: "c = py_int cd" by blast
  have l1: "lit lit_head s = Some (ys @ lit_mid @ cs @ lit_tail @ r)" using s f by (simp add: lit_Some)
  have d1: "digits 4 (ys @ lit_mid @ cs @ lit_tail @ r) = Some (yd, lit_mid @ cs @ lit_tail @ r)"
    unfolding digits_iff using ys by auto
  have l2: "lit lit_mid (lit_mid @ cs @ lit_tail @ r) = Some (cs @ lit_tail @ r)" by (simp add: lit_Some)
  have d2: "digits 8 (cs @ lit_tail @ r) = Some (cd, lit_tail @ r)"
    unfolding digits_iff using cs by auto
  have l3: "lit lit_tail (lit_tail @ r) = Some r" by (simp add: lit_Some)
  have "take (length s - length r) s = f" using s by simp
  then show ?l
    unfolding DETAILS_PATTERN_def
    using l1 d1 l2 d2 l3 y c by (simp add: lit_head_def[symmetric] lit_mid_def[symmetric] lit_tail_def[symmetric])
qed

lemma details_file_iff:
  "details_file f = Some (y, c) \<longleftrightarrow> DETAILS_PATTERN (f @ r) = Some (y, c, f)"
proof -
  have "details_file f = Some (y, c) \<longleftrightarrow> DETAILS_PATTERN f = Some (y, c, f)"
    by (auto simp: details_file_def split: option.splits if_splits)
  also have "\<dots> \<longleftrightarrow> DETAILS_PATTERN (f @ r) = Some (y, c, f)"
    unfolding DETAILS_PATTERN_iff by auto
  finally show ?thesis .
qed

lemma digit_value_S: "digit_value 83 = None"
  by (simp add: digit_value_def nd_zeros_def)


lemma lit_head_hd: "lit_head = 83 # tl lit_head" and lit_head_len: "length lit_head = 30"
  and lit_mid_len: "length lit_mid = 2" and lit_tail_len: "length lit_tail = 7"
  by (simp_all add: lit_head_def lit_mid_def lit_tail_def ustr_def)

lemma lits_no_S: "83 \<notin> set (tl lit_head)" "83 \<notin> set lit_mid" "83 \<notin> set lit_tail"
  by (simp_all add: lit_head_def lit_mid_def lit_tail_def ustr_def)

lemma digit_chars_no_S:
  assumes "map digit_value xs = map Some ds"
  shows "83 \<notin> set xs"
proof
  assume "83 \<in> set xs"
  then have "digit_value 83 \<in> set (map digit_value xs)" by force
  with assms have "digit_value 83 \<in> set (map Some ds)" by simp
  then show False by (auto simp: digit_value_S)
qed

lemma DETAILS_PATTERN_hd:
  assumes "DETAILS_PATTERN s = Some m"
  shows "s \<noteq> [] \<and> hd s = 83"
proof -
  obtain y c f where "m = (y, c, f)" by (cases m) auto
  with assms have "DETAILS_PATTERN s = Some (y, c, f)" by simp
  then obtain ys cs r where "s = lit_head @ ys @ lit_mid @ cs @ lit_tail @ r"
    unfolding DETAILS_PATTERN_iff by auto
  then have "s = 83 # (tl lit_head @ ys @ lit_mid @ cs @ lit_tail @ r)"
    using lit_head_hd by (metis append_Cons)
  then show ?thesis by simp
qed

lemma DETAILS_PATTERN_no_overlap:
  assumes m: "DETAILS_PATTERN s = Some (y, c, f)" and k: "0 < k" "k < 51"
  shows "DETAILS_PATTERN (drop k s) = None"
proof (rule ccontr)
  assume "DETAILS_PATTERN (drop k s) \<noteq> None"
  then obtain m' where "DETAILS_PATTERN (drop k s) = Some m'" by auto
  from DETAILS_PATTERN_hd[OF this] have ne: "drop k s \<noteq> []" and h: "hd (drop k s) = 83" by auto
  from ne have kl: "k < length s" by simp
  with h have sk: "s ! k = 83" by (simp add: hd_drop_conv_nth)
  from m obtain ys cs yd cd r where s: "s = f @ r" and f: "f = lit_head @ ys @ lit_mid @ cs @ lit_tail"
    and ys: "map digit_value ys = map Some yd" and cs: "map digit_value cs = map Some cd"
    unfolding DETAILS_PATTERN_iff by auto
  from DETAILS_PATTERN_length[OF m] have lf: "length f = 51" by simp
  have tlf: "tl f = tl lit_head @ ys @ lit_mid @ cs @ lit_tail" using f lit_head_hd by (metis append_Cons list.sel(3))
  have "83 \<notin> set (tl f)"
    unfolding tlf using lits_no_S digit_chars_no_S[OF ys] digit_chars_no_S[OF cs] by simp
  moreover have "s ! k = tl f ! (k - 1)"
    using s k lf by (simp add: nth_append nth_tl)
  moreover have "k - 1 < length (tl f)" using k lf by simp
  ultimately have "s ! k \<noteq> 83" by (metis nth_mem)
  with sk show False by simp
qed

lemma finditer_positions:
  "finditer s = List.map_filter (\<lambda>k. DETAILS_PATTERN (drop k s)) [0..<length s]"
proof (induction s rule: finditer.induct)
  case 1
  then show ?case by (simp add: List.map_filter_def)
next
  case (2 c cs)
  let ?s = "c # cs"
  let ?g = "\<lambda>k. DETAILS_PATTERN (drop k ?s)"
  show ?case
  proof (cases "DETAILS_PATTERN ?s")
    case None
    have "[0..<length ?s] = 0 # map Suc [0..<length cs]"
      by (simp add: upt_conv_Cons map_Suc_upt del: upt_Suc)
    then have "List.map_filter ?g [0..<length ?s] =
        List.map_filter (\<lambda>k. DETAILS_PATTERN (drop k cs)) [0..<length cs]"
      using None by (simp add: List.map_filter_def filter_map comp_def del: upt_Suc)
    with None "2.IH" show ?thesis by (simp del: upt_Suc)
  next
    case (Some m)
    obtain y d f where m: "m = (y, d, f)" by (cases m) auto
    from Some m have dp: "DETAILS_PATTERN ?s = Some (y, d, f)" by simp
    from DETAILS_PATTERN_length[OF dp] have lf: "length f = 51" and ls: "51 \<le> length ?s" by auto
    define t where "t = c # cs"
    define g where "g = (\<lambda>k. DETAILS_PATTERN (drop k t))"
    have IH: "finditer (drop 51 t) = List.map_filter (\<lambda>k. g (k + 51)) [0..<length t - 51]"
      using "2.IH"(2)[OF dp refl refl] unfolding lf t_def g_def by (simp only: drop_drop length_drop)
    have split: "[0..<length t] = 0 # [1..<51] @ map (\<lambda>k. k + 51) [0..<length t - 51]"
    proof -
      have "[0..<length t] = [0..<51] @ [51..<length t]"
        using ls unfolding t_def by (metis le_add_diff_inverse upt_add_eq_append zero_le)
      moreover have "[0..<51] = 0 # [1..<51]" by (simp add: upt_conv_Cons)
      moreover have "[51..<length t] = map (\<lambda>k. k + 51) [0..<length t - 51]"
        using ls unfolding t_def by (simp add: map_add_upt)
      ultimately show ?thesis by simp
    qed
    have g0: "g 0 = Some m" using Some by (simp add: g_def t_def)
    have none: "filter (\<lambda>k. g k \<noteq> None) [1..<51] = []"
      using DETAILS_PATTERN_no_overlap[OF dp] by (auto simp: filter_empty_conv g_def t_def)
    have "List.map_filter g [0..<length t] = m # List.map_filter (\<lambda>k. g (k + 51)) [0..<length t - 51]"
      unfolding split List.map_filter_def
      using g0 none m by (simp add: filter_map comp_def del: upt_Suc)
    with IH have "finditer t = List.map_filter g [0..<length t]"
      using dp lf m unfolding t_def by simp
    then show ?thesis unfolding t_def g_def .
  qed
qed

lemma DETAILS_PATTERN_at:
  "DETAILS_PATTERN (drop k s) = Some (y, c, f) \<longleftrightarrow>
     (\<exists>p r. s = p @ f @ r \<and> length p = k \<and> details_file f = Some (y, c))"
proof
  assume l: "DETAILS_PATTERN (drop k s) = Some (y, c, f)"
  then obtain r where r: "drop k s = f @ r" unfolding DETAILS_PATTERN_iff by auto
  with l have "details_file f = Some (y, c)" by (simp add: details_file_iff[of f y c r])
  moreover from DETAILS_PATTERN_hd[OF l] have "k < length s" by simp
  then have "s = take k s @ f @ r \<and> length (take k s) = k" using r
    by (metis append_take_drop_id length_take less_imp_le_nat min.absorb2)
  ultimately show "\<exists>p r. s = p @ f @ r \<and> length p = k \<and> details_file f = Some (y, c)" by blast
next
  assume "\<exists>p r. s = p @ f @ r \<and> length p = k \<and> details_file f = Some (y, c)"
  then obtain p r where "s = p @ f @ r" "length p = k" "details_file f = Some (y, c)" by blast
  then show "DETAILS_PATTERN (drop k s) = Some (y, c, f)"
    by (simp add: details_file_iff[of f y c r])
qed

lemma keep_latest_fold:
  "(foldl keep_latest Map.empty ms y = None \<longleftrightarrow> (\<forall>m\<in>set ms. fst m \<noteq> y)) \<and>
   (\<forall>d g. foldl keep_latest Map.empty ms y = Some (d, g) \<longrightarrow>
      (\<exists>i<length ms. ms ! i = (y, d, g) \<and>
         (\<forall>j<length ms. fst (ms ! j) = y \<longrightarrow>
            fst (snd (ms ! j)) \<le> d \<and> (fst (snd (ms ! j)) = d \<longrightarrow> i \<le> j))))"
proof (induction ms rule: rev_induct)
  case Nil
  then show ?case by simp
next
  case (snoc m ms)
  obtain y' c' f' where m: "m = (y', c', f')" by (cases m) auto
  define L where "L = foldl keep_latest Map.empty ms"
  have step: "foldl keep_latest Map.empty (ms @ [m]) = keep_latest L m" by (simp add: L_def)
  from snoc have none: "L y = None \<longleftrightarrow> (\<forall>m\<in>set ms. fst m \<noteq> y)"
    and some: "\<And>d g. L y = Some (d, g) \<Longrightarrow>
      \<exists>i<length ms. ms ! i = (y, d, g) \<and>
         (\<forall>j<length ms. fst (ms ! j) = y \<longrightarrow>
            fst (snd (ms ! j)) \<le> d \<and> (fst (snd (ms ! j)) = d \<longrightarrow> i \<le> j))"
    unfolding L_def by blast+
  show ?case
  proof (cases "y' = y")
    case False
    then have same: "keep_latest L m y = L y"
      by (auto simp: keep_latest_def m split: option.splits)
    have 1: "keep_latest L m y = None \<longleftrightarrow> (\<forall>m\<in>set (ms @ [m]). fst m \<noteq> y)"
      using same none False m by auto
    have 2: "\<exists>i<length (ms @ [m]). (ms @ [m]) ! i = (y, d, g) \<and>
         (\<forall>j<length (ms @ [m]). fst ((ms @ [m]) ! j) = y \<longrightarrow>
            fst (snd ((ms @ [m]) ! j)) \<le> d \<and> (fst (snd ((ms @ [m]) ! j)) = d \<longrightarrow> i \<le> j))"
      if "keep_latest L m y = Some (d, g)" for d g
    proof -
      from that same have "L y = Some (d, g)" by simp
      from some[OF this] obtain i where i: "i < length ms" "ms ! i = (y, d, g)"
        "\<forall>j<length ms. fst (ms ! j) = y \<longrightarrow>
            fst (snd (ms ! j)) \<le> d \<and> (fst (snd (ms ! j)) = d \<longrightarrow> i \<le> j)" by blast
      show ?thesis
      proof (intro exI[of _ i] conjI allI impI)
        show "i < length (ms @ [m])" using i by simp
        show "(ms @ [m]) ! i = (y, d, g)" using i by (simp add: nth_append)
      next
        fix j assume j: "j < length (ms @ [m])" "fst ((ms @ [m]) ! j) = y"
        then have "j < length ms" using False m by (cases "j = length ms") auto
        with i(3) j show "fst (snd ((ms @ [m]) ! j)) \<le> d" by (simp add: nth_append)
      next
        fix j assume j: "j < length (ms @ [m])" "fst ((ms @ [m]) ! j) = y"
          "fst (snd ((ms @ [m]) ! j)) = d"
        then have "j < length ms" using False m by (cases "j = length ms") auto
        with i(3) j show "i \<le> j" by (simp add: nth_append)
      qed
    qed
    show ?thesis unfolding step using 1 2 by blast
  next
    case True
    have 1: "keep_latest L m y = None \<longleftrightarrow> (\<forall>m\<in>set (ms @ [m]). fst m \<noteq> y)"
      using True m by (auto simp: keep_latest_def split: option.splits)
    have 2: "\<exists>i<length (ms @ [m]). (ms @ [m]) ! i = (y, d, g) \<and>
         (\<forall>j<length (ms @ [m]). fst ((ms @ [m]) ! j) = y \<longrightarrow>
            fst (snd ((ms @ [m]) ! j)) \<le> d \<and> (fst (snd ((ms @ [m]) ! j)) = d \<longrightarrow> i \<le> j))"
      if k: "keep_latest L m y = Some (d, g)" for d g
    proof (cases "L y")
      case None
      with k True m have dg: "d = c'" "g = f'" by (auto simp: keep_latest_def)
      from None none have no: "\<forall>j<length ms. fst (ms ! j) \<noteq> y" by auto
      show ?thesis
      proof (intro exI[of _ "length ms"] conjI allI impI)
        show "length ms < length (ms @ [m])" by simp
        show "(ms @ [m]) ! length ms = (y, d, g)" using dg m True by simp
      next
        fix j assume j: "j < length (ms @ [m])" "fst ((ms @ [m]) ! j) = y"
        with no have "j = length ms" by (cases "j = length ms") (auto simp: nth_append)
        then show "fst (snd ((ms @ [m]) ! j)) \<le> d" using dg m by simp
      next
        fix j assume j: "j < length (ms @ [m])" "fst ((ms @ [m]) ! j) = y"
        with no have "j = length ms" by (cases "j = length ms") (auto simp: nth_append)
        then show "length ms \<le> j" by simp
      qed
    next
      case (Some a)
      obtain c0 f0 where a: "a = (c0, f0)" by (cases a) auto
      from some[of c0 f0] Some a obtain i where i: "i < length ms" "ms ! i = (y, c0, f0)"
        "\<forall>j<length ms. fst (ms ! j) = y \<longrightarrow>
            fst (snd (ms ! j)) \<le> c0 \<and> (fst (snd (ms ! j)) = c0 \<longrightarrow> i \<le> j)" by blast
      show ?thesis
      proof (cases "c' > c0")
        case gt: True
        with k True m Some a have dg: "d = c'" "g = f'" by (auto simp: keep_latest_def)
        show ?thesis
        proof (intro exI[of _ "length ms"] conjI allI impI)
          show "length ms < length (ms @ [m])" by simp
          show "(ms @ [m]) ! length ms = (y, d, g)" using dg m True by simp
        next
          fix j assume j: "j < length (ms @ [m])" "fst ((ms @ [m]) ! j) = y"
          show "fst (snd ((ms @ [m]) ! j)) \<le> d"
          proof (cases "j = length ms")
            case True
            then show ?thesis using dg m by simp
          next
            case False
            with j have jl: "j < length ms" by simp
            with j i(3) have "fst (snd (ms ! j)) \<le> c0" by (simp add: nth_append)
            with gt dg jl show ?thesis by (simp add: nth_append)
          qed
        next
          fix j assume j: "j < length (ms @ [m])" "fst ((ms @ [m]) ! j) = y"
            "fst (snd ((ms @ [m]) ! j)) = d"
          show "length ms \<le> j"
          proof (rule ccontr)
            assume "\<not> length ms \<le> j"
            then have jl: "j < length ms" by simp
            with j i(3) have "fst (snd (ms ! j)) \<le> c0" by (auto simp: nth_append)
            with gt dg jl j(3) show False by (simp add: nth_append)
          qed
        qed
      next
        case le: False
        with k True m Some a have dg: "d = c0" "g = f0" by (auto simp: keep_latest_def)
        show ?thesis
        proof (intro exI[of _ i] conjI allI impI)
          show "i < length (ms @ [m])" using i by simp
          show "(ms @ [m]) ! i = (y, d, g)" using i dg by (simp add: nth_append)
        next
          fix j assume j: "j < length (ms @ [m])" "fst ((ms @ [m]) ! j) = y"
          show "fst (snd ((ms @ [m]) ! j)) \<le> d"
          proof (cases "j = length ms")
            case True
            then show ?thesis using dg m le by simp
          next
            case False
            with j have jl: "j < length ms" by simp
            with j i(3) dg show ?thesis by (simp add: nth_append)
          qed
        next
          fix j assume j: "j < length (ms @ [m])" "fst ((ms @ [m]) ! j) = y"
            "fst (snd ((ms @ [m]) ! j)) = d"
          show "i \<le> j"
          proof (cases "j = length ms")
            case True
            then show ?thesis using i by simp
          next
            case False
            with j have jl: "j < length ms" by simp
            with j i(3) dg show ?thesis by (simp add: nth_append)
          qed
        qed
      qed
    qed
    show ?thesis unfolding step using 1 2 by blast
  qed
qed


definition match_positions :: "pystr \<Rightarrow> nat list" where
  "match_positions html = filter (\<lambda>k. DETAILS_PATTERN (drop k html) \<noteq> None) [0..<length html]"

lemma finditer_nth:
  shows "length (finditer html) = length (match_positions html)"
    and "j < length (match_positions html) \<Longrightarrow> DETAILS_PATTERN (drop (match_positions html ! j) html) = Some (finditer html ! j)"
    and "DETAILS_PATTERN (drop k html) = Some m \<Longrightarrow> \<exists>j<length (match_positions html). match_positions html ! j = k"
    and "i < length (match_positions html) \<Longrightarrow> j < length (match_positions html) \<Longrightarrow> i \<le> j \<Longrightarrow> match_positions html ! i \<le> match_positions html ! j"
proof -
  show "length (finditer html) = length (match_positions html)"
    by (simp add: finditer_positions List.map_filter_def match_positions_def)
  show "DETAILS_PATTERN (drop (match_positions html ! j) html) = Some (finditer html ! j)"
    if j: "j < length (match_positions html)" for j
  proof -
    have "match_positions html ! j \<in> set (match_positions html)" using j by simp
    then have "DETAILS_PATTERN (drop (match_positions html ! j) html) \<noteq> None" by (simp add: match_positions_def)
    moreover have "finditer html ! j = the (DETAILS_PATTERN (drop (match_positions html ! j) html))"
      using j by (simp add: finditer_positions List.map_filter_def match_positions_def)
    ultimately show ?thesis by auto
  qed
  show "\<exists>j<length (match_positions html). match_positions html ! j = k" if "DETAILS_PATTERN (drop k html) = Some m" for k m
  proof -
    from DETAILS_PATTERN_hd[OF that] have "k < length html" by simp
    with that have "k \<in> set (match_positions html)" by (cases m) (auto simp: match_positions_def)
    then show ?thesis by (simp add: in_set_conv_nth)
  qed
  have "sorted (match_positions html)" unfolding match_positions_def by (rule sorted_filter[of id, simplified]) simp
  then show "match_positions html ! i \<le> match_positions html ! j" if "i < length (match_positions html)" "j < length (match_positions html)" "i \<le> j" for i j
    using that by (simp add: sorted_nth_mono)
qed

lemma latest_first_max:
  assumes "DETAILS_PATTERN (drop k html) = Some (y, c, f)"
  shows "\<exists>d g k0. foldl keep_latest Map.empty (finditer html) y = Some (d, g) \<and>
           DETAILS_PATTERN (drop k0 html) = Some (y, d, g) \<and>
           (\<forall>k' e h. DETAILS_PATTERN (drop k' html) = Some (y, e, h) \<longrightarrow>
               e \<le> d \<and> (e = d \<longrightarrow> k0 \<le> k'))"
proof -
  define oc where "oc = match_positions html"
  define ms where "ms = finditer html"
  note fn = finditer_nth[where html = html, folded oc_def ms_def]
  from fn(3)[OF assms] obtain j0 where j0: "j0 < length oc" "oc ! j0 = k" by blast
  with fn(2)[OF j0(1)] assms have "ms ! j0 = (y, c, f)" by simp
  with j0 fn(1) have "(y, c, f) \<in> set ms" by (metis nth_mem)
  then have "foldl keep_latest Map.empty ms y \<noteq> None"
    using keep_latest_fold[of ms y] by force
  then obtain d g where L: "foldl keep_latest Map.empty ms y = Some (d, g)" by auto
  with keep_latest_fold[of ms y] obtain i where i: "i < length ms" "ms ! i = (y, d, g)"
    and best: "\<forall>j<length ms. fst (ms ! j) = y \<longrightarrow>
            fst (snd (ms ! j)) \<le> d \<and> (fst (snd (ms ! j)) = d \<longrightarrow> i \<le> j)" by blast
  have at: "DETAILS_PATTERN (drop (oc ! i) html) = Some (y, d, g)"
    using fn(2)[of i] i fn(1) by simp
  have "e \<le> d \<and> (e = d \<longrightarrow> oc ! i \<le> k')"
    if "DETAILS_PATTERN (drop k' html) = Some (y, e, h)" for k' e h
  proof -
    from fn(3)[OF that] obtain j where j: "j < length oc" "oc ! j = k'" by blast
    with fn(2)[OF j(1)] that have mj: "ms ! j = (y, e, h)" by simp
    with best j fn(1) have "e \<le> d" "e = d \<longrightarrow> i \<le> j" by auto
    with fn(4)[of i j] i j fn(1) show ?thesis by auto
  qed
  with L at show ?thesis unfolding ms_def by blast
qed

lemma finditer_empty_iff:
  "finditer html = [] \<longleftrightarrow> (\<forall>k. DETAILS_PATTERN (drop k html) = None)"
proof
  assume e: "finditer html = []"
  show "\<forall>k. DETAILS_PATTERN (drop k html) = None"
  proof (rule allI, rule ccontr)
    fix k assume "DETAILS_PATTERN (drop k html) \<noteq> None"
    then obtain m where "DETAILS_PATTERN (drop k html) = Some m" by auto
    from finditer_nth(3)[OF this] finditer_nth(1)[where html = html] e show False by simp
  qed
next
  assume a: "\<forall>k. DETAILS_PATTERN (drop k html) = None"
  then show "finditer html = []" by (simp add: finditer_positions List.map_filter_def)
qed


lemma digits_numeral:
  "digits (numeral k) [] = None"
  "digits (numeral k) (c # cs) =
     (case digit_value c of
        None \<Rightarrow> None
      | Some d \<Rightarrow> (case digits (pred_numeral k) cs of None \<Rightarrow> None | Some (ds, r) \<Rightarrow> Some (d # ds, r)))"
  by (simp_all add: numeral_eq_Suc)

lemmas details_eval = details_file_def DETAILS_PATTERN_def ustr_def digit_value_def nd_zeros_def
  py_int_def digits_numeral

lemma finditer_skip: "c \<noteq> 83 \<Longrightarrow> finditer (c # cs) = finditer cs"
proof -
  assume "c \<noteq> 83"
  then have "DETAILS_PATTERN (c # cs) = None"
    using DETAILS_PATTERN_hd[of "c # cs"] by (cases "DETAILS_PATTERN (c # cs)") auto
  then show ?thesis by simp
qed

lemma finditer_hit:
  assumes "details_file f = Some (y, d)"
  shows "finditer (f @ r) = (y, d, f) # finditer r"
proof -
  from assms have dp: "DETAILS_PATTERN (f @ r) = Some (y, d, f)" by (simp add: details_file_iff[of f y d r])
  from DETAILS_PATTERN_hd[OF dp] obtain c cs where "f @ r = c # cs" by (cases "f @ r") auto
  with dp show ?thesis by (metis (mono_tags, lifting) append_eq_conv_conj case_prod_conv finditer.simps(2) option.simps(5))
qed



subsection \<open>Example listings\<close>

definition ex_rev_2021 :: pystr where
  "ex_rev_2021 = ustr ''StormEvents_details-ftp_v1.0_d2020_c20210115.csv.gz''"

definition ex_rev_2022 :: pystr where
  "ex_rev_2022 = ustr ''StormEvents_details-ftp_v1.0_d2020_c20220601.csv.gz''"

text \<open>
  The file name of \<open>ex_rev_2021\<close> with its last digit written as U+0665 (ARABIC-INDIC DIGIT
  FIVE): another text, which \<^verbatim>\<open>\d{8}\<close> matches and \<^verbatim>\<open>int\<close> reads as the same
  number 20210115.
\<close>

definition ex_rev_2021_alt :: pystr where
  "ex_rev_2021_alt = ustr ''StormEvents_details-ftp_v1.0_d2020_c2021011'' @ [0x665] @ ustr ''.csv.gz''"

lemma details_file_ex_rev_2021: "details_file ex_rev_2021 = Some (2020, 20210115)"
  by (simp add: ex_rev_2021_def details_eval)

lemma details_file_ex_rev_2022: "details_file ex_rev_2022 = Some (2020, 20220601)"
  by (simp add: ex_rev_2022_def details_eval)

lemma details_file_ex_rev_2021_alt: "details_file ex_rev_2021_alt = Some (2020, 20210115)"
  by (simp add: ex_rev_2021_alt_def details_eval)

lemma ex_rev_2021_alt_differs: "ex_rev_2021 \<noteq> ex_rev_2021_alt"
  by (simp add: ex_rev_2021_def ex_rev_2021_alt_def ustr_def)

lemma finditer_ex_two_revisions:
  "finditer (ex_rev_2021 @ [32] @ ex_rev_2022) =
     [(2020, 20210115, ex_rev_2021), (2020, 20220601, ex_rev_2022)]"
  using finditer_hit[OF details_file_ex_rev_2021, of "[32] @ ex_rev_2022"]
    finditer_hit[OF details_file_ex_rev_2022, of "[]"]
  by (simp add: finditer_skip del: finditer.simps(2))

lemma finditer_ex_tie:
  "finditer (ex_rev_2021 @ [32] @ ex_rev_2021_alt) =
     [(2020, 20210115, ex_rev_2021), (2020, 20210115, ex_rev_2021_alt)]"
  using finditer_hit[OF details_file_ex_rev_2021, of "[32] @ ex_rev_2021_alt"]
    finditer_hit[OF details_file_ex_rev_2021_alt, of "[]"]
  by (simp add: finditer_skip del: finditer.simps(2))

lemma finditer_ex_no_match: "finditer (ustr ''<html>no files</html>'') = []"
  by (simp add: ustr_def finditer_skip del: finditer.simps(2))

subsection \<open>Claims about \<^verbatim>\<open>build_latest_file_map\<close>\<close>

text \<open>
  In the statements below, a text \<open>html\<close> contains the file name \<open>f\<close> for year \<open>y\<close> with
  revision date \<open>c\<close> when \<open>html = p @ f @ s\<close> and \<open>details_file f = Some (y, c)\<close>, that is,
  \<open>f\<close> as a whole matches \<^verbatim>\<open>DETAILS_PATTERN\<close> with these two numbers.
\<close>

text \<open>
  Claim C1. Whenever the text contains a file name for year \<open>y\<close>,
  \<open>build_latest_file_map\<close> returns a mapping, and it maps \<open>y\<close> to a file name of the text for
  year \<open>y\<close> whose revision date is the largest among all file names of the text for \<open>y\<close>.
\<close>

theorem build_latest_file_map_selects_max:
  assumes "html = p @ f @ s" and "details_file f = Some (y, c)"
  shows "\<exists>m g d. build_latest_file_map html = Inr m \<and> m y = Some g \<and>
           (\<exists>p' s'. html = p' @ g @ s') \<and> details_file g = Some (y, d) \<and>
           (\<forall>p' h s' e. html = p' @ h @ s' \<and> details_file h = Some (y, e) \<longrightarrow> e \<le> d)"
proof -
  from assms have at: "DETAILS_PATTERN (drop (length p) html) = Some (y, c, f)"
    unfolding DETAILS_PATTERN_at by blast
  from latest_first_max[OF at] obtain d g k0 where
    L: "foldl keep_latest Map.empty (finditer html) y = Some (d, g)" and
    g: "DETAILS_PATTERN (drop k0 html) = Some (y, d, g)" and
    best: "\<forall>k' e h. DETAILS_PATTERN (drop k' html) = Some (y, e, h) \<longrightarrow>
               e \<le> d \<and> (e = d \<longrightarrow> k0 \<le> k')" by blast
  have ne: "finditer html \<noteq> []"
    using at by (auto simp: finditer_empty_iff)
  define m where "m = map_option snd \<circ> foldl keep_latest Map.empty (finditer html)"
  have 1: "build_latest_file_map html = Inr m"
    using ne by (simp add: build_latest_file_map_def m_def)
  have 2: "m y = Some g" using L by (simp add: m_def)
  from g obtain p0 s0 where 3: "html = p0 @ g @ s0" and 4: "details_file g = Some (y, d)"
    unfolding DETAILS_PATTERN_at by blast
  have 5: "e \<le> d" if "html = p' @ h @ s' \<and> details_file h = Some (y, e)" for p' h s' e
  proof -
    from that have "DETAILS_PATTERN (drop (length p') html) = Some (y, e, h)"
      unfolding DETAILS_PATTERN_at by blast
    with best show ?thesis by blast
  qed
  from 1 2 3 4 5 show ?thesis by blast
qed

theorem build_latest_file_map_selects_max_witness:
  "details_file ex_rev_2021 = Some (2020, 20210115) \<and>
   (\<exists>m g d. build_latest_file_map (ex_rev_2021 @ [32] @ ex_rev_2022) = Inr m \<and> m 2020 = Some g \<and>
      (\<exists>p' s'. ex_rev_2021 @ [32] @ ex_rev_2022 = p' @ g @ s') \<and>
      details_file g = Some (2020, d) \<and>
      (\<forall>p' h s' e. ex_rev_2021 @ [32] @ ex_rev_2022 = p' @ h @ s' \<and>
          details_file h = Some (2020, e) \<longrightarrow> e \<le> d))"
  using build_latest_file_map_selects_max
    [of "ex_rev_2021 @ [32] @ ex_rev_2022" "[]" ex_rev_2021 "[32] @ ex_rev_2022" 2020 20210115]
    details_file_ex_rev_2021
  by simp

text \<open>
  The example of the specification: of the revisions 20210115 and 20220601 of year 2020, the
  mapping holds the second.
\<close>

lemma build_latest_file_map_ex_two_revisions:
  "\<exists>m. build_latest_file_map (ex_rev_2021 @ [32] @ ex_rev_2022) = Inr m \<and>
       m 2020 = Some ex_rev_2022"
  using finditer_ex_two_revisions by (simp add: build_latest_file_map_def keep_latest_def)

text \<open>
  Claim C3, as stated: of several file names for one year with numerically equal revision
  dates, the mapping holds the one seen last. This fails: the text below holds two different
  file names for 2020, both with the revision date 20210115, and the mapping holds the one seen
  first.
\<close>

theorem build_latest_file_map_tie_last_seen_counterexample:
  "details_file ex_rev_2021 = Some (2020, 20210115) \<and>
   details_file ex_rev_2021_alt = Some (2020, 20210115) \<and>
   ex_rev_2021 \<noteq> ex_rev_2021_alt \<and>
   (\<exists>m. build_latest_file_map (ex_rev_2021 @ [32] @ ex_rev_2021_alt) = Inr m \<and>
        m 2020 = Some ex_rev_2021 \<and> m 2020 \<noteq> Some ex_rev_2021_alt)"
  using finditer_ex_tie details_file_ex_rev_2021 details_file_ex_rev_2021_alt ex_rev_2021_alt_differs
  by (simp add: build_latest_file_map_def keep_latest_def)

text \<open>
  Claim C3, amended. The comparison \<^verbatim>\<open>cdate > latest[year][0]\<close> is strict, so the entry of
  a year changes only for a strictly later revision date: the mapping holds, for each year, a
  file name with the largest revision date, and among the occurrences with that revision date
  the one that starts first in the text.
\<close>

theorem build_latest_file_map_tie_first_seen:
  assumes "html = p @ f @ s" and "details_file f = Some (y, c)"
  shows "\<exists>m p0 g s0 d. build_latest_file_map html = Inr m \<and> m y = Some g \<and>
           html = p0 @ g @ s0 \<and> details_file g = Some (y, d) \<and>
           (\<forall>p' h s' e. html = p' @ h @ s' \<and> details_file h = Some (y, e) \<longrightarrow>
               e \<le> d \<and> (e = d \<longrightarrow> length p0 \<le> length p'))"
proof -
  from assms have at: "DETAILS_PATTERN (drop (length p) html) = Some (y, c, f)"
    unfolding DETAILS_PATTERN_at by blast
  from latest_first_max[OF at] obtain d g k0 where
    L: "foldl keep_latest Map.empty (finditer html) y = Some (d, g)" and
    g: "DETAILS_PATTERN (drop k0 html) = Some (y, d, g)" and
    best: "\<forall>k' e h. DETAILS_PATTERN (drop k' html) = Some (y, e, h) \<longrightarrow>
               e \<le> d \<and> (e = d \<longrightarrow> k0 \<le> k')" by blast
  have ne: "finditer html \<noteq> []"
    using at by (auto simp: finditer_empty_iff)
  define m where "m = map_option snd \<circ> foldl keep_latest Map.empty (finditer html)"
  have 1: "build_latest_file_map html = Inr m"
    using ne by (simp add: build_latest_file_map_def m_def)
  have 2: "m y = Some g" using L by (simp add: m_def)
  from g obtain p0 s0 where 3: "html = p0 @ g @ s0" and k0: "length p0 = k0"
    and 4: "details_file g = Some (y, d)"
    unfolding DETAILS_PATTERN_at by blast
  have 5: "e \<le> d \<and> (e = d \<longrightarrow> length p0 \<le> length p')"
    if "html = p' @ h @ s' \<and> details_file h = Some (y, e)" for p' h s' e
  proof -
    from that have "DETAILS_PATTERN (drop (length p') html) = Some (y, e, h)"
      unfolding DETAILS_PATTERN_at by blast
    with best k0 show ?thesis by blast
  qed
  from 1 2 3 4 5 show ?thesis by blast
qed

theorem build_latest_file_map_tie_first_seen_witness:
  "details_file ex_rev_2021_alt = Some (2020, 20210115) \<and>
   (\<exists>m p0 g s0 d. build_latest_file_map (ex_rev_2021 @ [32] @ ex_rev_2021_alt) = Inr m \<and>
      m 2020 = Some g \<and> ex_rev_2021 @ [32] @ ex_rev_2021_alt = p0 @ g @ s0 \<and>
      details_file g = Some (2020, d) \<and>
      (\<forall>p' h s' e. ex_rev_2021 @ [32] @ ex_rev_2021_alt = p' @ h @ s' \<and>
          details_file h = Some (2020, e) \<longrightarrow> e \<le> d \<and> (e = d \<longrightarrow> length p0 \<le> length p')))"
  using build_latest_file_map_tie_first_seen
    [of "ex_rev_2021 @ [32] @ ex_rev_2021_alt" "ex_rev_2021 @ [32]" ex_rev_2021_alt "[]" 2020 20210115]
    details_file_ex_rev_2021_alt
  by simp

text \<open>
  Claim C4. \<open>build_latest_file_map\<close> raises (the \<^verbatim>\<open>RuntimeError\<close> of the source) if and
  only if the text contains no file name that matches the naming convention; it never returns
  the empty mapping.
\<close>

theorem build_latest_file_map_raises_iff_no_match:
  "((\<exists>e. build_latest_file_map html = Inl e) \<longleftrightarrow>
      \<not> (\<exists>p f s y c. html = p @ f @ s \<and> details_file f = Some (y, c))) \<and>
   (build_latest_file_map html = Inl RuntimeError \<or> (\<exists>m. build_latest_file_map html = Inr m)) \<and>
   build_latest_file_map html \<noteq> Inr Map.empty"
proof -
  have "(\<exists>e. build_latest_file_map html = Inl e) \<longleftrightarrow> finditer html = []"
    by (auto simp: build_latest_file_map_def Let_def)
  also have "\<dots> \<longleftrightarrow> (\<forall>k. DETAILS_PATTERN (drop k html) = None)" by (rule finditer_empty_iff)
  also have "\<dots> \<longleftrightarrow> \<not> (\<exists>p f s y c. html = p @ f @ s \<and> details_file f = Some (y, c))"
  proof
    assume a: "\<forall>k. DETAILS_PATTERN (drop k html) = None"
    show "\<not> (\<exists>p f s y c. html = p @ f @ s \<and> details_file f = Some (y, c))"
    proof
      assume "\<exists>p f s y c. html = p @ f @ s \<and> details_file f = Some (y, c)"
      then obtain p f s y c where "html = p @ f @ s" "details_file f = Some (y, c)" by blast
      then have "DETAILS_PATTERN (drop (length p) html) = Some (y, c, f)"
        unfolding DETAILS_PATTERN_at by blast
      with a show False by simp
    qed
  next
    assume n: "\<not> (\<exists>p f s y c. html = p @ f @ s \<and> details_file f = Some (y, c))"
    show "\<forall>k. DETAILS_PATTERN (drop k html) = None"
    proof (rule allI, rule ccontr)
      fix k assume "DETAILS_PATTERN (drop k html) \<noteq> None"
      then obtain y c f where "DETAILS_PATTERN (drop k html) = Some (y, c, f)" by auto
      then have "\<exists>p r. html = p @ f @ r \<and> length p = k \<and> details_file f = Some (y, c)"
        unfolding DETAILS_PATTERN_at .
      with n show False by blast
    qed
  qed
  finally have iff: "(\<exists>e. build_latest_file_map html = Inl e) \<longleftrightarrow>
     \<not> (\<exists>p f s y c. html = p @ f @ s \<and> details_file f = Some (y, c))" .
  have nonempty: "build_latest_file_map html \<noteq> Inr Map.empty"
  proof
    assume e: "build_latest_file_map html = Inr Map.empty"
    then have ne: "finditer html \<noteq> []" and
      m: "map_option snd \<circ> foldl keep_latest Map.empty (finditer html) = Map.empty"
      by (auto simp: build_latest_file_map_def Let_def split: if_splits)
    from ne obtain y c f ms where "finditer html = (y, c, f) # ms" by (cases "finditer html") auto
    then have "(y, c, f) \<in> set (finditer html)" by simp
    then have "foldl keep_latest Map.empty (finditer html) y \<noteq> None"
      using keep_latest_fold[of "finditer html" y] by force
    with m show False by (metis comp_apply option.map_disc_iff)
  qed
  have cases: "build_latest_file_map html = Inl RuntimeError \<or> (\<exists>m. build_latest_file_map html = Inr m)"
    by (simp add: build_latest_file_map_def Let_def)
  from iff cases nonempty show ?thesis by blast
qed

theorem build_latest_file_map_raises_iff_no_match_witness:
  "build_latest_file_map (ustr ''<html>no files</html>'') = Inl RuntimeError \<and>
   \<not> (\<exists>p f s y c. ustr ''<html>no files</html>'' = p @ f @ s \<and> details_file f = Some (y, c)) \<and>
   \<not> (\<exists>e. build_latest_file_map ex_rev_2021 = Inl e)"
proof -
  have 1: "build_latest_file_map (ustr ''<html>no files</html>'') = Inl RuntimeError"
    using finditer_ex_no_match by (simp add: build_latest_file_map_def)
  have "ex_rev_2021 = [] @ ex_rev_2021 @ [] \<and> details_file ex_rev_2021 = Some (2020, 20210115)"
    using details_file_ex_rev_2021 by simp
  then have 2: "\<exists>p f s y c. ex_rev_2021 = p @ f @ s \<and> details_file f = Some (y, c)" by blast
  from 1 2 build_latest_file_map_raises_iff_no_match[of "ustr ''<html>no files</html>''"]
    build_latest_file_map_raises_iff_no_match[of ex_rev_2021]
  show ?thesis by blast
qed

subsection \<open>\<^verbatim>\<open>download_file\<close> and \<^verbatim>\<open>gunzip_file\<close>\<close>

text \<open>
  The two functions act on the file system and the network. The state they read and change is
  the content of the files (a file exists when it has a content) and the trace of what has been
  done: lines printed, HTTP requests sent, gzip streams opened for decompression. The progress
  bar of \<^verbatim>\<open>tqdm\<close> is not part of the state. The raw directory exists and is writable
  (the script creates it when it is loaded), so opening a file in it for writing succeeds.
\<close>

type_synonym path = "pystr list"
type_synonym bytes = "nat list"

definition path_name :: "path \<Rightarrow> pystr" where
  "path_name p = (if p = [] then [] else last p)"

datatype event = Print pystr | HttpGet pystr | Decompress path

record world =
  files :: "path \<rightharpoonup> bytes"
  trace :: "event list"

text \<open>
  What the server answers to \<^verbatim>\<open>requests.get(url, stream=True, timeout=60)\<close>: nothing
  (the request raises), or a response with its status code, its
  \<^verbatim>\<open>Content-Length\<close> header as \<^verbatim>\<open>int\<close> reads it, the chunks that
  \<^verbatim>\<open>iter_content\<close> yields, and whether the stream breaks after these chunks.
\<close>

datatype header = Absent | Length int | Malformed

record response =
  status_code :: nat
  content_length :: header
  chunks :: "bytes list"
  broken :: bool

type_synonym network = "pystr \<Rightarrow> response option"

text \<open>\<^verbatim>\<open>for chunk in r.iter_content(...): if chunk: f.write(chunk)\<close>\<close>

fun write_chunks :: "bytes \<Rightarrow> bytes list \<Rightarrow> bytes" where
  "write_chunks content [] = content"
| "write_chunks content (chunk # rest) =
     (if chunk \<noteq> [] then write_chunks (content @ chunk) rest else write_chunks content rest)"

definition download_file :: "network \<Rightarrow> pystr \<Rightarrow> path \<Rightarrow> world \<Rightarrow> (py_error + unit) \<times> world" where
  "download_file net url out_path w =
     (if out_path \<in> dom (files w) then
        (Inr (), w\<lparr>trace := trace w @ [Print ([0x2705] @ ustr '' Already exists: '' @ path_name out_path)]\<rparr>)
      else
        let w1 = w\<lparr>trace := trace w @ [HttpGet url]\<rparr> in
        case net url of
          None \<Rightarrow> (Inl ConnectionError, w1)
        | Some r \<Rightarrow>
            if 400 \<le> status_code r \<and> status_code r < 600 then (Inl HTTPError, w1)
            else if content_length r = Malformed then (Inl ValueError, w1)
            else
              let w2 = w1\<lparr>files := (files w1)(out_path \<mapsto> write_chunks [] (chunks r))\<rparr> in
              if broken r then (Inl ConnectionError, w2) else (Inr (), w2))"

text \<open>
  \<^verbatim>\<open>gzip.open\<close> and \<^verbatim>\<open>shutil.copyfileobj\<close>: what the gzip library makes of a
  compressed content is a parameter, the bytes it delivers and the error it ends with, if any.
\<close>

type_synonym gzip = "bytes \<Rightarrow> bytes \<times> py_error option"

definition gunzip_file :: "gzip \<Rightarrow> path \<Rightarrow> path \<Rightarrow> world \<Rightarrow> (py_error + unit) \<times> world" where
  "gunzip_file gz gz_path csv_path w =
     (if csv_path \<in> dom (files w) then
        (Inr (), w\<lparr>trace := trace w @ [Print ([0x2705] @ ustr '' Already unzipped: '' @ path_name csv_path)]\<rparr>)
      else
        case files w gz_path of
          None \<Rightarrow> (Inl FileNotFoundError, w)
        | Some compressed \<Rightarrow>
            let w1 = w\<lparr>trace := trace w @ [Decompress gz_path]\<rparr> in
            (case gz compressed of
               (data, Some e) \<Rightarrow> (Inl e, w1\<lparr>files := (files w1)(csv_path \<mapsto> data)\<rparr>)
             | (data, None) \<Rightarrow>
                 (Inr (), w1\<lparr>files := (files w1)(csv_path \<mapsto> data),
                             trace := trace w1 @ [Print ([0x1f9e9] @ ustr '' Unzipped -> '' @ path_name csv_path)]\<rparr>)))"

lemma download_file_creates:
  "download_file net url out_path w = (Inr (), w') \<Longrightarrow> out_path \<in> dom (files w')"
  by (auto simp: download_file_def Let_def split: if_splits option.splits)

lemma gunzip_file_creates:
  "gunzip_file gz gz_path csv_path w = (Inr (), w') \<Longrightarrow> csv_path \<in> dom (files w')"
  by (auto simp: gunzip_file_def Let_def split: if_splits option.splits prod.splits)

lemma download_file_skip:
  "out_path \<in> dom (files w) \<Longrightarrow>
     \<exists>line. download_file net url out_path w = (Inr (), w\<lparr>trace := trace w @ [Print line]\<rparr>)"
  unfolding download_file_def by (simp only: if_True) (rule exI, rule refl)

lemma gunzip_file_skip:
  "csv_path \<in> dom (files w) \<Longrightarrow>
     \<exists>line. gunzip_file gz gz_path csv_path w = (Inr (), w\<lparr>trace := trace w @ [Print line]\<rparr>)"
  unfolding gunzip_file_def by (simp only: if_True) (rule exI, rule refl)

text \<open>
  Claim C9. When the destination exists, \<open>download_file\<close> and \<open>gunzip_file\<close> return at
  once: they print one line and nothing else happens, so no request is sent, nothing is
  decompressed and every file keeps its content. A call that returned normally has created its
  destination, so a second call against the same destination (whatever its other arguments) is
  such a return.
\<close>

theorem download_gunzip_idempotent:
  "(out_path \<in> dom (files w) \<longrightarrow>
      (\<exists>line. download_file net url out_path w = (Inr (), w\<lparr>trace := trace w @ [Print line]\<rparr>))) \<and>
   (csv_path \<in> dom (files w) \<longrightarrow>
      (\<exists>line. gunzip_file gz gz_path csv_path w = (Inr (), w\<lparr>trace := trace w @ [Print line]\<rparr>))) \<and>
   (download_file net url out_path w = (Inr (), w1) \<longrightarrow>
      (\<exists>line. download_file net' url' out_path w1 = (Inr (), w1\<lparr>trace := trace w1 @ [Print line]\<rparr>))) \<and>
   (gunzip_file gz gz_path csv_path w = (Inr (), w1) \<longrightarrow>
      (\<exists>line. gunzip_file gz' gz_path' csv_path w1 = (Inr (), w1\<lparr>trace := trace w1 @ [Print line]\<rparr>)))"
  using download_file_skip gunzip_file_skip download_file_creates gunzip_file_creates
  by meson


definition ex_gz_path :: path where
  "ex_gz_path = [ustr ''data'', ustr ''raw'', ex_rev_2021]"

definition ex_csv_path :: path where
  "ex_csv_path = [ustr ''data'', ustr ''raw'', ustr ''StormEvents_details-ftp_v1.0_d2020_c20210115.csv'']"

definition ex_world :: world where
  "ex_world = \<lparr>files = Map.empty, trace = []\<rparr>"

definition ex_net :: network where
  "ex_net url = Some \<lparr>status_code = 200, content_length = Length 3, chunks = [[31, 139], [], [8]], broken = False\<rparr>"

definition ex_gzip :: gzip where
  "ex_gzip compressed = ([83], None)"

definition ex_world_downloaded :: world where
  "ex_world_downloaded =
     \<lparr>files = [ex_gz_path \<mapsto> [31, 139, 8]], trace = [HttpGet (ustr ''u'')]\<rparr>"

definition ex_world_unzipped :: world where
  "ex_world_unzipped =
     \<lparr>files = [ex_gz_path \<mapsto> [31, 139, 8], ex_csv_path \<mapsto> [83]],
      trace = [HttpGet (ustr ''u''), Decompress ex_gz_path,
               Print ([0x1f9e9] @ ustr '' Unzipped -> '' @ path_name ex_csv_path)]\<rparr>"

lemma ex_download: "download_file ex_net (ustr ''u'') ex_gz_path ex_world = (Inr (), ex_world_downloaded)"
  by (simp add: download_file_def ex_net_def ex_world_def ex_world_downloaded_def)

lemma ex_paths_differ: "ex_csv_path \<noteq> ex_gz_path"
  by (simp add: ex_csv_path_def ex_gz_path_def ex_rev_2021_def ustr_def)

lemma ex_gunzip: "gunzip_file ex_gzip ex_gz_path ex_csv_path ex_world_downloaded = (Inr (), ex_world_unzipped)"
  using ex_paths_differ
  by (simp add: gunzip_file_def ex_gzip_def ex_world_downloaded_def ex_world_unzipped_def)

theorem download_gunzip_idempotent_witness:
  "download_file ex_net (ustr ''u'') ex_gz_path ex_world = (Inr (), ex_world_downloaded) \<and>
   ex_gz_path \<in> dom (files ex_world_downloaded) \<and>
   (\<exists>line. download_file ex_net (ustr ''u'') ex_gz_path ex_world_downloaded =
      (Inr (), ex_world_downloaded\<lparr>trace := trace ex_world_downloaded @ [Print line]\<rparr>)) \<and>
   gunzip_file ex_gzip ex_gz_path ex_csv_path ex_world_downloaded = (Inr (), ex_world_unzipped) \<and>
   ex_csv_path \<in> dom (files ex_world_unzipped) \<and>
   (\<exists>line. gunzip_file ex_gzip ex_gz_path ex_csv_path ex_world_unzipped =
      (Inr (), ex_world_unzipped\<lparr>trace := trace ex_world_unzipped @ [Print line]\<rparr>))"
proof -
  have 1: "ex_gz_path \<in> dom (files ex_world_downloaded)" by (simp add: ex_world_downloaded_def)
  have 2: "ex_csv_path \<in> dom (files ex_world_unzipped)" by (simp add: ex_world_unzipped_def)
  note first = download_gunzip_idempotent
    [where out_path = ex_gz_path and w = ex_world and ?w1.0 = ex_world_downloaded
       and net = ex_net and url = "ustr ''u''" and net' = ex_net and url' = "ustr ''u''"
       and csv_path = ex_csv_path and gz = ex_gzip and gz_path = ex_gz_path
       and gz' = ex_gzip and gz_path' = ex_gz_path]
  note second = download_gunzip_idempotent
    [where out_path = ex_gz_path and w = ex_world_downloaded and ?w1.0 = ex_world_unzipped
       and net = ex_net and url = "ustr ''u''" and net' = ex_net and url' = "ustr ''u''"
       and csv_path = ex_csv_path and gz = ex_gzip and gz_path = ex_gz_path
       and gz' = ex_gzip and gz_path' = ex_gz_path]
  show ?thesis using 1 2 ex_download ex_gunzip first second by blast
qed

section \<open>The transformer: \<^verbatim>\<open>make_tx_dataset.py\<close>\<close>

subsection \<open>\<^verbatim>\<open>iter_year_files\<close>\<close>

text \<open>\<^verbatim>\<open>str(year)\<close>, as the f-string of the glob pattern formats the year.\<close>

fun digits_of_nat :: "nat \<Rightarrow> pystr" where
  "digits_of_nat n = (if n < 10 then [48 + n] else digits_of_nat (n div 10) @ [48 + n mod 10])"

declare digits_of_nat.simps [simp del]

definition py_str_int :: "int \<Rightarrow> pystr" where
  "py_str_int i = (if i < 0 then 45 # digits_of_nat (nat (- i)) else digits_of_nat (nat i))"

text \<open>
  \<^verbatim>\<open>RAW_DIR.glob(f"StormEvents_details-ftp_v1.0_d{year}_c*.csv")\<close> over the names of the
  entries of the raw directory: the pattern has no other wildcard than the one star, which
  stands for any text, the empty one too. The names are compared as they are written (a POSIX
  file system).
\<close>

definition RAW_DIR :: path where
  "RAW_DIR = [ustr ''data'', ustr ''raw'']"

definition fnmatch_year :: "int \<Rightarrow> pystr \<Rightarrow> bool" where
  "fnmatch_year year name =
     (let pre = ustr ''StormEvents_details-ftp_v1.0_d'' @ py_str_int year @ ustr ''_c'';
          suf = ustr ''.csv''
      in length pre + length suf \<le> length name \<and>
         take (length pre) name = pre \<and>
         drop (length name - length suf) name = suf)"

definition glob_year :: "pystr list \<Rightarrow> int \<Rightarrow> path list" where
  "glob_year entries year = map (\<lambda>name. RAW_DIR @ [name]) (filter (fnmatch_year year) entries)"

text \<open>
  The generator, for the years still to come: the paths it yields and the exception that ends
  it, if any. \<^verbatim>\<open>sorted\<close> orders paths by their parts, and the parts as Python orders
  strings: by code point, a proper prefix first.
\<close>

fun iter_years :: "pystr list \<Rightarrow> int list \<Rightarrow> path list \<times> py_error option" where
  "iter_years entries [] = ([], None)"
| "iter_years entries (year # years) =
     (let matches = sort (glob_year entries year) in
      if matches = [] then ([], Some FileNotFoundError)
      else (case iter_years entries years of (ps, e) \<Rightarrow> (last matches # ps, e)))"

definition iter_year_files :: "pystr list \<Rightarrow> int \<Rightarrow> int \<Rightarrow> path list \<times> py_error option" where
  "iter_year_files entries start_year end_year = iter_years entries [start_year..end_year]"


text \<open>The path \<open>p\<close> is the last of \<open>xs\<close> in the order of the paths.\<close>

definition lex_last :: "path \<Rightarrow> path list \<Rightarrow> bool" where
  "lex_last p xs \<longleftrightarrow> p \<in> set xs \<and> list_all (\<lambda>q. q \<le> p) xs"

lemma sort_Nil_iff: "sort xs = [] \<longleftrightarrow> xs = []"
  by (metis length_0_conv length_sort)

lemma last_sort_lex_last:
  fixes xs :: "path list"
  assumes "sort xs \<noteq> []"
  shows "lex_last (last (sort xs)) xs"
proof -
  have "last (sort xs) \<in> set (sort xs)" using assms by (rule last_in_set)
  then have 1: "last (sort xs) \<in> set xs" by simp
  have "q \<le> last (sort xs)" if "q \<in> set xs" for q
  proof -
    from that have "q \<in> set (sort xs)" by simp
    then obtain i where i: "i < length (sort xs)" "sort xs ! i = q"
      unfolding in_set_conv_nth by blast
    have "sort xs ! i \<le> sort xs ! (length (sort xs) - 1)"
      using i by (intro sorted_nth_mono) auto
    with i assms show ?thesis by (simp add: last_conv_nth)
  qed
  with 1 show ?thesis by (simp add: lex_last_def list_all_iff)
qed

lemma iter_years_spec:
  "iter_years entries ys = (ps, e) \<Longrightarrow>
     (e = None \<or> e = Some FileNotFoundError) \<and>
     (e = Some FileNotFoundError \<longleftrightarrow> (\<exists>y\<in>set ys. glob_year entries y = [])) \<and>
     ps = map (\<lambda>y. last (sort (glob_year entries y)))
            (takeWhile (\<lambda>y. glob_year entries y \<noteq> []) ys)"
proof (induction ys arbitrary: ps e)
  case Nil
  then show ?case by simp
next
  case (Cons y ys)
  show ?case
  proof (cases "glob_year entries y = []")
    case True
    with Cons.prems show ?thesis by (simp add: sort_Nil_iff)
  next
    case False
    obtain ps' e' where r: "iter_years entries ys = (ps', e')" by (cases "iter_years entries ys")
    with False Cons.prems have "ps = last (sort (glob_year entries y)) # ps'" "e = e'"
      by (auto simp: Let_def sort_Nil_iff)
    with Cons.IH[OF r] False show ?thesis by auto
  qed
qed


text \<open>
  Claim C6. The generator ends with \<^verbatim>\<open>FileNotFoundError\<close>, and with no other exception,
  exactly when some year of the inclusive range has no matching entry. Every path it yields is
  the last match of its year in the order of the paths: the \<open>i\<close>-th path belongs to the year
  \<open>start_year + i\<close>. Without the exception there is one path for every year of the range;
  with it, the paths stop before the first year that has no match.
\<close>

theorem iter_year_files_last_match_or_not_found:
  assumes "iter_year_files entries start_year end_year = (ps, e)"
  shows "(e = Some FileNotFoundError \<longleftrightarrow>
            (\<exists>y. start_year \<le> y \<and> y \<le> end_year \<and> glob_year entries y = [])) \<and>
         (e = None \<longleftrightarrow>
            (\<forall>y. start_year \<le> y \<and> y \<le> end_year \<longrightarrow> glob_year entries y \<noteq> [])) \<and>
         (\<forall>i<length ps. start_year + int i \<le> end_year \<and>
            lex_last (ps ! i) (glob_year entries (start_year + int i))) \<and>
         (e = None \<longrightarrow> int (length ps) = max 0 (end_year - start_year + 1)) \<and>
         (e \<noteq> None \<longrightarrow> start_year + int (length ps) \<le> end_year \<and>
            glob_year entries (start_year + int (length ps)) = [])"
proof -
  define ys where "ys = [start_year..end_year]"
  define P where "P = (\<lambda>y. glob_year entries y \<noteq> [])"
  define tw where "tw = takeWhile P ys"
  from assms have "iter_years entries ys = (ps, e)" by (simp add: iter_year_files_def ys_def)
  from iter_years_spec[OF this] have
    e: "e = None \<or> e = Some FileNotFoundError" and
    ex: "e = Some FileNotFoundError \<longleftrightarrow> (\<exists>y\<in>set ys. \<not> P y)" and
    ps: "ps = map (\<lambda>y. last (sort (glob_year entries y))) tw"
    unfolding P_def tw_def by blast+
  have set_ys: "y \<in> set ys \<longleftrightarrow> start_year \<le> y \<and> y \<le> end_year" for y by (simp add: ys_def)
  have len_ys: "int (length ys) = max 0 (end_year - start_year + 1)" by (simp add: ys_def)
  have nth_ys: "ys ! i = start_year + int i" if "i < length ys" for i
    using that unfolding ys_def by (simp add: nth_upto)
  have len: "length ps = length tw" by (simp add: ps)
  have tw_le: "length tw \<le> length ys" by (simp add: tw_def length_takeWhile_le)
  have tw_nth: "tw ! i = ys ! i" if "i < length tw" for i
    using that by (simp add: tw_def takeWhile_nth)
  have tw_P: "P (tw ! i)" if "i < length tw" for i
    using that by (metis nth_mem set_takeWhileD tw_def)
  have 1: "e = Some FileNotFoundError \<longleftrightarrow>
            (\<exists>y. start_year \<le> y \<and> y \<le> end_year \<and> glob_year entries y = [])"
    using ex set_ys by (auto simp: P_def)
  have 2: "e = None \<longleftrightarrow>
            (\<forall>y. start_year \<le> y \<and> y \<le> end_year \<longrightarrow> glob_year entries y \<noteq> [])"
    using 1 e by auto
  have 3: "start_year + int i \<le> end_year \<and>
            lex_last (ps ! i) (glob_year entries (start_year + int i))" if i: "i < length ps" for i
  proof -
    from i len tw_le have iy: "i < length ys" by simp
    from i len have y: "tw ! i = start_year + int i" using tw_nth nth_ys iy by simp
    from iy have "ys ! i \<in> set ys" by simp
    then have le: "start_year + int i \<le> end_year" using nth_ys[OF iy] set_ys by simp
    from tw_P[of i] i len y have "glob_year entries (start_year + int i) \<noteq> []" by (simp add: P_def)
    then have "sort (glob_year entries (start_year + int i)) \<noteq> []" by (simp add: sort_Nil_iff)
    from last_sort_lex_last[OF this] i len y le show ?thesis by (simp add: ps)
  qed
  have 4: "int (length ps) = max 0 (end_year - start_year + 1)" if "e = None"
  proof -
    from that ex have "\<forall>y\<in>set ys. P y" by auto
    then have "tw = ys" by (simp add: tw_def)
    with len len_ys show ?thesis by simp
  qed
  have 5: "start_year + int (length ps) \<le> end_year \<and>
            glob_year entries (start_year + int (length ps)) = []" if "e \<noteq> None"
  proof -
    from that e ex obtain y where "y \<in> set ys" "\<not> P y" by auto
    then have "tw \<noteq> ys" unfolding tw_def by (auto simp: takeWhile_eq_all_conv)
    moreover have "tw = take (length tw) ys" unfolding tw_def by (rule takeWhile_eq_take)
    ultimately have "length tw \<noteq> length ys" by (metis take_all order_refl)
    with tw_le have lt: "length tw < length ys" by simp
    then have "\<not> P (ys ! length tw)" unfolding tw_def by (rule nth_length_takeWhile)
    moreover from lt have "ys ! length tw \<in> set ys" by simp
    ultimately show ?thesis using nth_ys[OF lt] set_ys len by (simp add: P_def)
  qed
  from 1 2 3 4 5 show ?thesis by blast
qed


definition ex_entries :: "pystr list" where
  "ex_entries =
     [ustr ''StormEvents_details-ftp_v1.0_d2010_c20220425.csv'',
      ustr ''StormEvents_details-ftp_v1.0_d2011_c20230417.csv'',
      ustr ''StormEvents_details-ftp_v1.0_d2010_c20250520.csv'',
      ustr ''StormEvents_details-ftp_v1.0_d2010_c20250520.csv.gz'']"

definition ex_yield_2010 :: path where
  "ex_yield_2010 = RAW_DIR @ [ustr ''StormEvents_details-ftp_v1.0_d2010_c20250520.csv'']"

definition ex_yield_2011 :: path where
  "ex_yield_2011 = RAW_DIR @ [ustr ''StormEvents_details-ftp_v1.0_d2011_c20230417.csv'']"

lemma py_str_int_examples:
  "py_str_int 2010 = ustr ''2010''" "py_str_int 2011 = ustr ''2011''" "py_str_int 2012 = ustr ''2012''"
  by (simp_all add: py_str_int_def digits_of_nat.simps ustr_def)

lemma fnmatch_year_examples:
  "\<not> fnmatch_year 2011 (ustr ''StormEvents_details-ftp_v1.0_d2010_c20220425.csv'')"
  "\<not> fnmatch_year 2012 (ustr ''StormEvents_details-ftp_v1.0_d2010_c20220425.csv'')"
  "\<not> fnmatch_year 2010 (ustr ''StormEvents_details-ftp_v1.0_d2011_c20230417.csv'')"
  "\<not> fnmatch_year 2012 (ustr ''StormEvents_details-ftp_v1.0_d2011_c20230417.csv'')"
  "\<not> fnmatch_year 2011 (ustr ''StormEvents_details-ftp_v1.0_d2010_c20250520.csv'')"
  "\<not> fnmatch_year 2012 (ustr ''StormEvents_details-ftp_v1.0_d2010_c20250520.csv'')"
  "\<not> fnmatch_year 2010 (ustr ''StormEvents_details-ftp_v1.0_d2010_c20250520.csv.gz'')"
  "\<not> fnmatch_year 2011 (ustr ''StormEvents_details-ftp_v1.0_d2010_c20250520.csv.gz'')"
  "\<not> fnmatch_year 2012 (ustr ''StormEvents_details-ftp_v1.0_d2010_c20250520.csv.gz'')"
  "fnmatch_year 2010 (ustr ''StormEvents_details-ftp_v1.0_d2010_c20220425.csv'')"
  "fnmatch_year 2011 (ustr ''StormEvents_details-ftp_v1.0_d2011_c20230417.csv'')"
  "fnmatch_year 2010 (ustr ''StormEvents_details-ftp_v1.0_d2010_c20250520.csv'')"
  by (simp_all add: fnmatch_year_def py_str_int_examples ustr_def)

lemma glob_year_examples:
  "glob_year ex_entries 2010 =
     [RAW_DIR @ [ustr ''StormEvents_details-ftp_v1.0_d2010_c20220425.csv''], ex_yield_2010]"
  "glob_year ex_entries 2011 = [ex_yield_2011]"
  "glob_year ex_entries 2012 = []"
  by (simp_all add: glob_year_def fnmatch_year_examples ex_entries_def
      ex_yield_2010_def ex_yield_2011_def)

lemma upto_examples: "[2010..2011] = [2010, 2011::int]" "[2010..2012] = [2010, 2011, 2012::int]"
  by (simp_all add: upto.simps)

lemma le_example:
  "RAW_DIR @ [ustr ''StormEvents_details-ftp_v1.0_d2010_c20220425.csv''] \<le> ex_yield_2010"
  by (simp add: ex_yield_2010_def ustr_def RAW_DIR_def)

lemma iter_year_files_examples:
  "iter_year_files ex_entries 2010 2011 = ([ex_yield_2010, ex_yield_2011], None)"
  "iter_year_files ex_entries 2010 2012 = ([ex_yield_2010, ex_yield_2011], Some FileNotFoundError)"
  by (simp_all add: iter_year_files_def upto_examples glob_year_examples le_example)

theorem iter_year_files_last_match_or_not_found_witness:
  "iter_year_files ex_entries 2010 2011 = ([ex_yield_2010, ex_yield_2011], None) \<and>
   lex_last ex_yield_2010 (glob_year ex_entries 2010) \<and>
   lex_last ex_yield_2011 (glob_year ex_entries 2011) \<and>
   \<not> (\<exists>y. 2010 \<le> y \<and> y \<le> 2011 \<and> glob_year ex_entries y = []) \<and>
   iter_year_files ex_entries 2010 2012 = ([ex_yield_2010, ex_yield_2011], Some FileNotFoundError) \<and>
   glob_year ex_entries 2012 = []"
proof -
  note a = iter_year_files_last_match_or_not_found[OF iter_year_files_examples(1)]
  note b = iter_year_files_last_match_or_not_found[OF iter_year_files_examples(2)]
  from a have all: "\<forall>i<2. lex_last ([ex_yield_2010, ex_yield_2011] ! i) (glob_year ex_entries (2010 + int i))"
    by simp
  from all[rule_format, of 0] have 1: "lex_last ex_yield_2010 (glob_year ex_entries 2010)" by simp
  from all[rule_format, of 1] have 2: "lex_last ex_yield_2011 (glob_year ex_entries 2011)" by simp
  from a have 3: "\<not> (\<exists>y. 2010 \<le> y \<and> y \<le> 2011 \<and> glob_year ex_entries y = [])" by blast
  from b have 4: "glob_year ex_entries 2012 = []" by simp
  from 1 2 3 4 iter_year_files_examples show ?thesis by blast
qed

subsection \<open>Python floats\<close>

text \<open>
  A Python \<^verbatim>\<open>float\<close> is an IEEE 754 double: a finite value, which is a rational number,
  the negative zero, an infinity or a NaN. The conversions and the arithmetic of the script
  round to the nearest double, ties to the even significand.
\<close>

datatype pyfloat = Finite rat | NegZero | PosInf | NegInf | NaN

fun bitlen :: "nat \<Rightarrow> nat" where
  "bitlen n = (if n = 0 then 0 else Suc (bitlen (n div 2)))"

declare bitlen.simps [simp del]

definition pow2 :: "int \<Rightarrow> rat" where
  "pow2 k = (if 0 \<le> k then 2 ^ nat k else 1 / 2 ^ nat (- k))"

text \<open>The exponent of a positive rational: \<open>pow2 (ilog2 q) \<le> q < pow2 (ilog2 q + 1)\<close>.\<close>

definition ilog2 :: "rat \<Rightarrow> int" where
  "ilog2 q =
     (if 1 \<le> q then int (bitlen (nat \<lfloor>q\<rfloor>)) - 1
      else - int (bitlen (nat (\<lceil>1 / q\<rceil> - 1))))"

definition round_half_even :: "rat \<Rightarrow> int" where
  "round_half_even q =
     (let f = \<lfloor>q\<rfloor>; r = q - of_int f
      in if r < 1 / 2 then f else if 1 / 2 < r then f + 1 else if even f then f else f + 1)"

text \<open>
  The double nearest to a rational \<open>q \<ge> 0\<close>: 53 bits of significand, the least exponent of a
  unit in the last place is \<open>-1074\<close>; no double when the rounded value reaches \<open>2 ^ 1024\<close>.
\<close>

definition round_double :: "rat \<Rightarrow> rat option" where
  "round_double q =
     (if q = 0 then Some 0
      else
        let p = max (ilog2 q - 52) (- 1074);
            v = of_int (round_half_even (q / pow2 p)) * pow2 p
        in if 2 ^ 1024 \<le> v then None else Some v)"

text \<open>A sign and a magnitude, rounded; beyond the largest double the result is an infinity.\<close>

definition signed_round :: "bool \<Rightarrow> rat \<Rightarrow> pyfloat" where
  "signed_round neg q =
     (case round_double q of
        None \<Rightarrow> if neg then NegInf else PosInf
      | Some v \<Rightarrow> if neg then (if v = 0 then NegZero else Finite (- v)) else Finite v)"

text \<open>\<^verbatim>\<open>float(n)\<close> for an \<^verbatim>\<open>int\<close>: beyond the largest double it raises.\<close>

definition float_of_int :: "int \<Rightarrow> py_error + pyfloat" where
  "float_of_int n =
     (case round_double \<bar>of_int n\<bar> of
        None \<Rightarrow> Inl OverflowError
      | Some v \<Rightarrow> Inr (Finite (if n < 0 then - v else v)))"

fun is_negative :: "pyfloat \<Rightarrow> bool" where
  "is_negative (Finite q) = (q < 0)"
| "is_negative NegZero = True"
| "is_negative NegInf = True"
| "is_negative PosInf = False"
| "is_negative NaN = False"

fun magnitude :: "pyfloat \<Rightarrow> rat" where
  "magnitude (Finite q) = \<bar>q\<bar>"
| "magnitude x = 0"

definition is_inf :: "pyfloat \<Rightarrow> bool" where
  "is_inf x \<longleftrightarrow> x = PosInf \<or> x = NegInf"

definition is_zero :: "pyfloat \<Rightarrow> bool" where
  "is_zero x \<longleftrightarrow> x = Finite 0 \<or> x = NegZero"

text \<open>The product and the sum of two floats.\<close>

definition fmul :: "pyfloat \<Rightarrow> pyfloat \<Rightarrow> pyfloat" where
  "fmul x y =
     (if x = NaN \<or> y = NaN then NaN
      else if is_inf x \<or> is_inf y then
        (if is_zero x \<or> is_zero y then NaN
         else if is_negative x \<noteq> is_negative y then NegInf else PosInf)
      else signed_round (is_negative x \<noteq> is_negative y) (magnitude x * magnitude y))"



subsection \<open>Text operations\<close>

text \<open>The code points for which \<^verbatim>\<open>str.isspace\<close> holds; \<^verbatim>\<open>\s\<close> matches the same ones.\<close>

definition is_space :: "codepoint \<Rightarrow> bool" where
  "is_space c \<longleftrightarrow>
     (0x9 \<le> c \<and> c \<le> 0xd) \<or> (0x1c \<le> c \<and> c \<le> 0x20) \<or> c = 0x85 \<or> c = 0xa0 \<or>
     c = 0x1680 \<or> (0x2000 \<le> c \<and> c \<le> 0x200a) \<or> c = 0x2028 \<or> c = 0x2029 \<or>
     c = 0x202f \<or> c = 0x205f \<or> c = 0x3000"

definition strip :: "pystr \<Rightarrow> pystr" where
  "strip s = rev (dropWhile is_space (rev (dropWhile is_space s)))"

text \<open>
  \<^verbatim>\<open>str.upper\<close>, code point by code point. The table holds every code point whose upper case
  is made of ASCII code points only: the letters a to z, and ten more whose upper case is one
  or several ASCII letters. Every other code point that \<^verbatim>\<open>str.upper\<close> changes is not ASCII
  and its upper case holds a code point that is not ASCII; here it is left as it is. The script
  compares upper-cased text with ASCII constants only, and these comparisons come out as in
  Python.
\<close>

definition upper_cp :: "codepoint \<Rightarrow> pystr" where
  "upper_cp c =
     (if 0x61 \<le> c \<and> c \<le> 0x7a then [c - 0x20]
      else if c = 0xdf then ustr ''SS''
      else if c = 0x131 then ustr ''I''
      else if c = 0x17f then ustr ''S''
      else if c = 0xfb00 then ustr ''FF''
      else if c = 0xfb01 then ustr ''FI''
      else if c = 0xfb02 then ustr ''FL''
      else if c = 0xfb03 then ustr ''FFI''
      else if c = 0xfb04 then ustr ''FFL''
      else if c = 0xfb05 \<or> c = 0xfb06 then ustr ''ST''
      else [c])"

definition py_upper :: "pystr \<Rightarrow> pystr" where
  "py_upper s = concat (map upper_cp s)"

subsection \<open>\<^verbatim>\<open>parse_damage_to_dollars\<close>\<close>

definition is_ascii_digit :: "codepoint \<Rightarrow> bool" where
  "is_ascii_digit c \<longleftrightarrow> 0x30 \<le> c \<and> c \<le> 0x39"

text \<open>
  \<^verbatim>\<open>[KMB]\<close> under \<^verbatim>\<open>re.IGNORECASE\<close>: the six ASCII letters and U+212A (KELVIN SIGN),
  whose lower case is \<^verbatim>\<open>k\<close>.
\<close>

definition is_KMB :: "codepoint \<Rightarrow> bool" where
  "is_KMB c \<longleftrightarrow> c \<in> {0x4b, 0x4d, 0x42, 0x6b, 0x6d, 0x62, 0x212a}"

text \<open>
  \<^verbatim>\<open>_DAMAGE_RE.match(s)\<close> for
  \<^verbatim>\<open>^\s*([0-9]*\.?[0-9]+)\s*([KMB])?\s*$\<close>: the groups 1 and 2 of the match (group 2 as
  \<^verbatim>\<open>m.group(2) or ""\<close>), or no match. Every piece of the pattern is followed by a piece
  that cannot start with what the piece itself accepts, so the match, when there is one, takes at
  each piece the longest run.
\<close>

definition DAMAGE_RE :: "pystr \<Rightarrow> (pystr \<times> pystr) option" where
  "DAMAGE_RE s =
     (let r0 = dropWhile is_space s;
          ip = takeWhile is_ascii_digit r0;
          r1 = dropWhile is_ascii_digit r0;
          dot = (case r1 of c # r \<Rightarrow> c = 0x2e \<and> takeWhile is_ascii_digit r \<noteq> [] | [] \<Rightarrow> False);
          fp = (if dot then 0x2e # takeWhile is_ascii_digit (tl r1) else []);
          r2 = (if dot then dropWhile is_ascii_digit (tl r1) else r1);
          r3 = dropWhile is_space r2;
          g2 = (case r3 of c # r \<Rightarrow> if is_KMB c then [c] else [] | [] \<Rightarrow> []);
          r4 = dropWhile is_space (drop (length g2) r3)
      in if (dot \<or> ip \<noteq> []) \<and> r4 = [] then Some (ip @ fp, g2) else None)"

text \<open>
  \<^verbatim>\<open>float(m.group(1))\<close>: group 1 is ASCII digits with at most one point; its value is a
  rational, and \<^verbatim>\<open>float\<close> rounds it to the nearest double, an infinity beyond the largest.
\<close>

definition decimal_value :: "pystr \<Rightarrow> rat" where
  "decimal_value s =
     (let ip = takeWhile is_ascii_digit s;
          fp = drop 1 (dropWhile is_ascii_digit s)
      in of_int (py_int (map (\<lambda>c. c - 0x30) (ip @ fp))) / 10 ^ length fp)"

definition float_of_str :: "pystr \<Rightarrow> pyfloat" where
  "float_of_str s = signed_round False (decimal_value s)"

datatype pyval = PyNone | PyInt int | PyFloat pyfloat | PyStr pystr

text \<open>The function from \<^verbatim>\<open>s = str(value).strip()\<close> on, given \<^verbatim>\<open>str(value)\<close>.\<close>

definition parse_damage_str :: "pystr \<Rightarrow> pyfloat" where
  "parse_damage_str v =
     (let s = strip v in
      if s = [] \<or> py_upper s = ustr ''NA'' \<or> py_upper s = ustr ''N/A'' then Finite 0
      else
        case DAMAGE_RE s of
          None \<Rightarrow> Finite 0
        | Some (g1, g2) \<Rightarrow>
            let amount = float_of_str g1;
                suffix = py_upper g2;
                mult = (if suffix = ustr ''K'' then Finite 1000
                        else if suffix = ustr ''M'' then Finite 1000000
                        else if suffix = ustr ''B'' then Finite 1000000000
                        else Finite 1)
            in fmul amount mult)"

text \<open>
  The value is \<^verbatim>\<open>None\<close>, an \<^verbatim>\<open>int\<close> (\<^verbatim>\<open>pd.isna\<close> is false for it), a
  \<^verbatim>\<open>float\<close> (\<^verbatim>\<open>pd.isna\<close> holds for a NaN, whose \<^verbatim>\<open>str\<close> is \<^verbatim>\<open>nan\<close>) or a
  \<^verbatim>\<open>str\<close>. Any other object takes the path of a string, with its \<^verbatim>\<open>str\<close>.
\<close>

fun parse_damage_to_dollars :: "pyval \<Rightarrow> py_error + pyfloat" where
  "parse_damage_to_dollars PyNone = Inr (Finite 0)"
| "parse_damage_to_dollars (PyInt n) = float_of_int n"
| "parse_damage_to_dollars (PyFloat x) =
     (if x \<noteq> NaN then Inr x else Inr (parse_damage_str (ustr ''nan'')))"
| "parse_damage_to_dollars (PyStr s) = Inr (parse_damage_str s)"

lemma bitlen_bounds: "0 < n \<Longrightarrow> 2 ^ (bitlen n - 1) \<le> n \<and> n < 2 ^ bitlen n"
proof (induction n rule: bitlen.induct)
  case (1 n)
  show ?case
  proof (cases "n = 1")
    case True
    then show ?thesis by (simp add: bitlen.simps)
  next
    case False
    with "1.prems" have h: "0 < n div 2" by simp
    from "1.IH"[OF _ h] "1.prems" have
      lo: "2 ^ (bitlen (n div 2) - 1) \<le> n div 2" and hi: "n div 2 < 2 ^ bitlen (n div 2)" by auto
    have bl: "bitlen n = Suc (bitlen (n div 2))" using "1.prems" by (subst bitlen.simps) simp
    have pos: "0 < bitlen (n div 2)" using h by (subst bitlen.simps) simp
    from lo have "2 * 2 ^ (bitlen (n div 2) - 1) \<le> n" by simp
    moreover have "2 * 2 ^ (bitlen (n div 2) - 1) = (2::nat) ^ bitlen (n div 2)"
      using pos by (cases "bitlen (n div 2)") auto
    moreover from hi have "n < 2 * 2 ^ bitlen (n div 2)" by simp
    ultimately show ?thesis by (simp add: bl)
  qed
qed

lemma pow2_power_int: "pow2 k = 2 powi k"
  by (simp add: pow2_def power_int_def power_one_over)

lemma pow2_pos: "0 < pow2 k" by (simp add: pow2_power_int)

lemma pow2_add: "pow2 (a + b) = pow2 a * pow2 b"
  by (simp add: pow2_power_int power_int_add)

lemma pow2_diff: "pow2 (a - b) = pow2 a / pow2 b"
  by (simp add: pow2_power_int power_int_diff)

lemma pow2_mono: "a \<le> b \<Longrightarrow> pow2 a \<le> pow2 b"
  by (simp add: pow2_power_int power_int_increasing)

lemma pow2_strict_mono: "a < b \<Longrightarrow> pow2 a < pow2 b"
  by (simp add: pow2_power_int power_int_strict_increasing)

lemma pow2_nat: "pow2 (int n) = 2 ^ n" by (simp add: pow2_def)

lemma pow2_less_iff: "pow2 a < pow2 b \<longleftrightarrow> a < b"
  by (metis pow2_mono pow2_strict_mono linorder_not_less)

lemma pow2_le_iff: "pow2 a \<le> pow2 b \<longleftrightarrow> a \<le> b"
  by (metis pow2_mono pow2_strict_mono linorder_not_less)

lemma ilog2_bounds:
  assumes "0 < q"
  shows "pow2 (ilog2 q) \<le> q \<and> q < pow2 (ilog2 q + 1)"
proof (cases "1 \<le> q")
  case True
  define n where "n = nat \<lfloor>q\<rfloor>"
  from True have n: "0 < n" by (simp add: n_def)
  have e: "ilog2 q = int (bitlen n) - 1" using True by (simp add: ilog2_def n_def)
  from bitlen_bounds[OF n] have lo: "2 ^ (bitlen n - 1) \<le> n" and hi: "n < 2 ^ bitlen n" by auto
  have bpos: "0 < bitlen n" using n by (subst bitlen.simps) simp
  have nq: "of_nat n \<le> q" "q < of_nat n + 1"
    using True by (simp_all add: n_def) linarith+
  have "pow2 (ilog2 q) = 2 ^ (bitlen n - 1)"
    using bpos by (simp add: e pow2_def nat_diff_distrib')
  also have "\<dots> \<le> of_nat n" using of_nat_mono[OF lo, where 'a = rat] by simp
  finally have 1: "pow2 (ilog2 q) \<le> q" using nq by linarith
  have "Suc n \<le> 2 ^ bitlen n" using hi by simp
  from of_nat_mono[OF this, where 'a = rat] have "of_nat n + 1 \<le> (2::rat) ^ bitlen n" by simp
  moreover have "pow2 (ilog2 q + 1) = 2 ^ bitlen n" by (simp add: e pow2_def)
  ultimately have 2: "q < pow2 (ilog2 q + 1)" using nq by linarith
  from 1 2 show ?thesis ..
next
  case False
  define r where "r = 1 / q"
  define n where "n = nat (\<lceil>r\<rceil> - 1)"
  define k where "k = bitlen n"
  from False assms have r1: "1 < r" by (simp add: r_def)
  then have c2: "2 \<le> \<lceil>r\<rceil>" by linarith
  then have n: "0 < n" by (simp add: n_def)
  have e: "ilog2 q = - int k" using False by (simp add: ilog2_def n_def r_def k_def)
  from bitlen_bounds[OF n] have lo: "2 ^ (k - 1) \<le> n" and hi: "n < 2 ^ k" by (auto simp: k_def)
  have kpos: "0 < k" using n unfolding k_def by (subst bitlen.simps) simp
  have nr: "of_nat n < r" "r \<le> of_nat n + 1"
    using c2 by (simp_all add: n_def) linarith+
  have "(2::rat) ^ (k - 1) \<le> of_nat n" using of_nat_mono[OF lo, where 'a = rat] by simp
  with nr have rlo: "2 ^ (k - 1) < r" by linarith
  have "Suc n \<le> 2 ^ k" using hi by simp
  from of_nat_mono[OF this, where 'a = rat] have "of_nat n + 1 \<le> (2::rat) ^ k" by simp
  with nr have rhi: "r \<le> 2 ^ k" by linarith
  have q: "q = 1 / r" using assms by (simp add: r_def)
  have p1: "pow2 (- int k) = 1 / 2 ^ k" by (simp add: pow2_def)
  have p2: "pow2 (- int k + 1) = 1 / 2 ^ (k - 1)"
    using kpos by (cases k) (auto simp: pow2_def)
  have "1 / 2 ^ k \<le> 1 / r" using rhi r1 by (simp add: frac_le)
  then have 1: "pow2 (ilog2 q) \<le> q" using e p1 q by simp
  have "1 / r < 1 / 2 ^ (k - 1)" using rlo r1 by (simp add: frac_less2)
  then have 2: "q < pow2 (ilog2 q + 1)" using e p2 q by simp
  from 1 2 show ?thesis ..
qed

lemma round_half_even_of_int: "round_half_even (of_int k) = k"
  by (simp add: round_half_even_def)

lemma round_half_even_cases:
  "round_half_even x = \<lfloor>x\<rfloor> \<or> round_half_even x = \<lfloor>x\<rfloor> + 1"
  by (simp add: round_half_even_def Let_def)

lemma round_half_even_ge_even:
  assumes "even K"
  shows "K \<le> round_half_even x \<longleftrightarrow> of_int K - 1 / 2 \<le> (x::rat)"
proof -
  define f where "f = \<lfloor>x\<rfloor>"
  define r where "r = x - of_int f"
  have r: "0 \<le> r" "r < 1" by (simp_all add: r_def f_def) linarith+
  have x: "x = of_int f + r" by (simp add: r_def)
  have rhe: "round_half_even x =
      (if r < 1 / 2 then f else if 1 / 2 < r then f + 1 else if even f then f else f + 1)"
    by (simp add: round_half_even_def Let_def f_def r_def)
  show ?thesis
  proof (cases "K \<le> f")
    case True
    then have "K \<le> round_half_even x" by (simp add: rhe)
    moreover from True have "of_int K \<le> (of_int f :: rat)" by simp
    then have "of_int K - 1 / 2 \<le> x" using x r by linarith
    ultimately show ?thesis by simp
  next
    case False
    show ?thesis
    proof (cases "f = K - 1")
      case True
      then have odd: "odd f" using assms by simp
      have fx: "(of_int f :: rat) = of_int K - 1" using True by simp
      have "K \<le> round_half_even x \<longleftrightarrow> 1 / 2 \<le> r"
        using odd True by (auto simp: rhe)
      also have "\<dots> \<longleftrightarrow> of_int K - 1 / 2 \<le> x" using x fx by linarith
      finally show ?thesis by simp
    next
      case F2: False
      with False have lt: "f \<le> K - 2" by simp
      then have "round_half_even x \<le> K - 1" by (simp add: rhe)
      then have 1: "\<not> K \<le> round_half_even x" by simp
      from lt have "(of_int f :: rat) \<le> of_int K - 2" by (metis of_int_diff of_int_le_iff of_int_numeral)
      then have "\<not> of_int K - 1 / 2 \<le> x" using x r by linarith
      with 1 show ?thesis by simp
    qed
  qed
qed

lemma round_half_even_mono: "x \<le> y \<Longrightarrow> round_half_even x \<le> round_half_even (y::rat)"
proof -
  assume xy: "x \<le> y"
  show ?thesis
  proof (cases "\<lfloor>x\<rfloor> = \<lfloor>y\<rfloor>")
    case True
    then have "x - of_int \<lfloor>x\<rfloor> \<le> y - of_int \<lfloor>y\<rfloor>" using xy by simp
    then show ?thesis using True by (auto simp: round_half_even_def Let_def)
  next
    case False
    with xy have "\<lfloor>x\<rfloor> < \<lfloor>y\<rfloor>" by (simp add: floor_mono order.strict_iff_order)
    then have "\<lfloor>x\<rfloor> + 1 \<le> \<lfloor>y\<rfloor>" by simp
    moreover have "round_half_even x \<le> \<lfloor>x\<rfloor> + 1" using round_half_even_cases[of x] by auto
    moreover have "\<lfloor>y\<rfloor> \<le> round_half_even y" using round_half_even_cases[of y] by auto
    ultimately show ?thesis by linarith
  qed
qed

lemma pow2_of_int: "0 \<le> k \<Longrightarrow> pow2 k = of_int (2 ^ nat k)"
  by (simp add: pow2_def)

lemma pow2_1: "pow2 1 = 2"
  by (simp add: pow2_def)

lemma pow2_Suc: "pow2 (k + 1) = 2 * pow2 k"
  by (simp add: pow2_add pow2_1)

lemma round_double_exact:
  assumes m: "0 < m" "m < 2 ^ 53" and k: "- 1074 \<le> k" "k \<le> 971"
  shows "round_double (of_int m * pow2 k) = Some (of_int m * pow2 k)"
proof -
  define q where "q = of_int m * pow2 k"
  define p where "p = max (ilog2 q - 52) (- 1074)"
  have qpos: "0 < q" using m pow2_pos[of k] by (simp add: q_def)
  have "(of_int m :: rat) < of_int (2 ^ 53)" using m(2) by (simp only: of_int_less_iff)
  then have mlt: "(of_int m :: rat) < pow2 53" by (simp add: pow2_def)
  then have qlt: "q < pow2 (53 + k)" using pow2_pos[of k] by (simp add: q_def pow2_add)
  from ilog2_bounds[OF qpos] qlt have "pow2 (ilog2 q) < pow2 (53 + k)" by linarith
  then have "ilog2 q < 53 + k" by (simp add: pow2_less_iff)
  with k have pk: "p \<le> k" by (simp add: p_def)
  have "q / pow2 p = of_int m * pow2 (k - p)" by (simp add: q_def pow2_diff)
  also have "\<dots> = of_int (m * 2 ^ nat (k - p))" using pk by (simp add: pow2_of_int)
  finally have x: "q / pow2 p = of_int (m * 2 ^ nat (k - p))" .
  have "of_int (round_half_even (q / pow2 p)) * pow2 p = q / pow2 p * pow2 p"
    unfolding x round_half_even_of_int by (simp only: x)
  also have "\<dots> = q" using pow2_pos[of p] by simp
  finally have v: "of_int (round_half_even (q / pow2 p)) * pow2 p = q" .
  have "q < pow2 1024" using qlt k pow2_mono[of "53 + k" 1024] by simp
  then have "\<not> 2 ^ 1024 \<le> q" by (simp add: pow2_def)
  with qpos v show ?thesis
    unfolding round_double_def Let_def q_def[symmetric] p_def[symmetric] by simp
qed

lemma round_double_None_iff:
  assumes "0 \<le> q"
  shows "round_double q = None \<longleftrightarrow> pow2 1024 - pow2 970 \<le> q"
proof (cases "q = 0")
  case True
  have "pow2 970 < pow2 1024" by (simp add: pow2_less_iff)
  with True show ?thesis by (simp add: round_double_def)
next
  case False
  with assms have qpos: "0 < q" by simp
  define e where "e = ilog2 q"
  define p where "p = max (e - 52) (- 1074)"
  define x where "x = q / pow2 p"
  define v where "v = of_int (round_half_even x) * pow2 p"
  from ilog2_bounds[OF qpos] have lo: "pow2 e \<le> q" and hi: "q < pow2 (e + 1)" by (simp_all add: e_def)
  have rd: "round_double q = None \<longleftrightarrow> pow2 1024 \<le> v"
    using False by (simp add: round_double_def Let_def e_def p_def x_def v_def pow2_def)
  have p53: "pow2 53 = of_int (2 ^ 53)" by (simp add: pow2_def)
  have p52: "pow2 52 = of_int (2 ^ 52)" by (simp add: pow2_def)
  have T: "pow2 1024 - pow2 970 = (of_int (2 ^ 53) - 1 / 2) * pow2 971"
  proof -
    have "pow2 1024 = pow2 53 * pow2 971" using pow2_add[of 53 971] by simp
    moreover have "pow2 971 = 2 * pow2 970" using pow2_Suc[of 970] by simp
    ultimately show ?thesis by (simp add: p53 algebra_simps)
  qed
  consider "1024 \<le> e" | "e = 1023" | "e \<le> 1022" by linarith
  then show ?thesis
  proof cases
    case 1
    then have p: "p = e - 52" by (simp add: p_def)
    have "pow2 52 = pow2 e / pow2 p" by (simp add: p pow2_diff[symmetric])
    also have "\<dots> \<le> x" using lo pow2_pos[of p] by (simp add: x_def divide_right_mono)
    finally have "of_int (2 ^ 52) \<le> x" by (simp add: p52)
    from round_half_even_mono[OF this] have "2 ^ 52 \<le> round_half_even x"
      by (simp only: round_half_even_of_int)
    then have "(of_int (2 ^ 52) :: rat) \<le> of_int (round_half_even x)" by (simp only: of_int_le_iff)
    then have "pow2 52 * pow2 p \<le> v"
      using pow2_pos[of p] unfolding v_def p52 by (simp only: mult_le_cancel_right) simp
    moreover have "pow2 52 * pow2 p = pow2 e" using pow2_add[of 52 p] by (simp add: p)
    moreover have "pow2 1024 \<le> pow2 e" using 1 by (simp add: pow2_le_iff)
    ultimately have "pow2 1024 \<le> v" by linarith
    moreover have "pow2 1024 - pow2 970 \<le> q"
      using lo \<open>pow2 1024 \<le> pow2 e\<close> pow2_pos[of 970] by linarith
    ultimately show ?thesis using rd by simp
  next
    case 2
    then have p: "p = 971" by (simp add: p_def)
    have p1024: "pow2 1024 = of_int (2 ^ 53) * pow2 971" using pow2_add[of 53 971] by (simp add: p53)
    have "pow2 1024 \<le> v \<longleftrightarrow> (of_int (2 ^ 53) :: rat) \<le> of_int (round_half_even x)"
      unfolding v_def p p1024 using pow2_pos[of 971] by (simp only: mult_le_cancel_right) simp
    also have "\<dots> \<longleftrightarrow> 2 ^ 53 \<le> round_half_even x" by (simp only: of_int_le_iff)
    also have "\<dots> \<longleftrightarrow> of_int (2 ^ 53) - 1 / 2 \<le> x"
      by (rule round_half_even_ge_even) simp
    also have "\<dots> \<longleftrightarrow> (of_int (2 ^ 53) - 1 / 2) * pow2 971 \<le> q"
      unfolding x_def p using pow2_pos[of 971] by (simp only: pos_le_divide_eq)
    finally have "pow2 1024 \<le> v \<longleftrightarrow> pow2 1024 - pow2 970 \<le> q" unfolding T .
    with rd show ?thesis by (simp only:)
  next
    case 3
    have pe: "e - 52 \<le> p" "p \<le> 970" using 3 by (simp_all add: p_def)
    have "x < pow2 (e + 1) / pow2 p" using hi pow2_pos[of p] by (simp add: x_def divide_strict_right_mono)
    also have "\<dots> = pow2 (e + 1 - p)" by (simp add: pow2_diff)
    also have "\<dots> \<le> pow2 53" using pe by (simp add: pow2_le_iff)
    finally have "x \<le> of_int (2 ^ 53)" by (simp add: p53)
    from round_half_even_mono[OF this] have "round_half_even x \<le> 2 ^ 53"
      by (simp only: round_half_even_of_int)
    then have "(of_int (round_half_even x) :: rat) \<le> of_int (2 ^ 53)" by (simp only: of_int_le_iff)
    then have "v \<le> pow2 53 * pow2 p"
      using pow2_pos[of p] unfolding v_def p53 by (simp only: mult_le_cancel_right) simp
    also have "\<dots> = pow2 (53 + p)" by (simp add: pow2_add)
    also have "\<dots> \<le> pow2 1023" using pe by (simp add: pow2_le_iff)
    finally have v: "v \<le> pow2 1023" .
    have a: "pow2 1024 = 2 * pow2 1023" using pow2_Suc[of 1023] by simp
    have b: "pow2 970 < pow2 1023" by (simp add: pow2_less_iff)
    from v a pow2_pos[of 1023] have 1: "\<not> pow2 1024 \<le> v" by linarith
    have "q < pow2 1023" using hi 3 pow2_mono[of "e + 1" 1023] by simp
    with a b have 2: "\<not> pow2 1024 - pow2 970 \<le> q" by linarith
    from 1 2 rd show ?thesis by simp
  qed
qed

lemma span_append:
  assumes "list_all P xs" and "ys = [] \<or> \<not> P (hd ys)"
  shows "takeWhile P (xs @ ys) = xs" and "dropWhile P (xs @ ys) = ys"
proof -
  from assms(1) have all: "\<forall>x\<in>set xs. P x" by (simp add: list_all_iff)
  from assms(2) have tw: "takeWhile P ys = []" and dw: "dropWhile P ys = ys"
    by (cases ys; auto)+
  from all tw show "takeWhile P (xs @ ys) = xs" by (simp add: takeWhile_append2)
  from all dw show "dropWhile P (xs @ ys) = ys" by (simp add: dropWhile_append2)
qed

lemma not_space_digit: "is_ascii_digit c \<Longrightarrow> \<not> is_space c"
  by (auto simp: is_ascii_digit_def is_space_def)

lemma not_space_dot: "\<not> is_space 0x2e" by (simp add: is_space_def)
lemma not_digit_dot: "\<not> is_ascii_digit 0x2e" by (simp add: is_ascii_digit_def)
lemma not_space_KMB: "is_KMB c \<Longrightarrow> \<not> is_space c" by (auto simp: is_KMB_def is_space_def)
lemma not_digit_KMB: "is_KMB c \<Longrightarrow> \<not> is_ascii_digit c" by (auto simp: is_KMB_def is_ascii_digit_def)
lemma not_dot_KMB: "is_KMB c \<Longrightarrow> c \<noteq> 0x2e" by (auto simp: is_KMB_def)
lemma not_digit_space: "is_space c \<Longrightarrow> \<not> is_ascii_digit c"
  by (auto simp: is_ascii_digit_def is_space_def)
lemma not_dot_space: "is_space c \<Longrightarrow> c \<noteq> 0x2e" by (auto simp: is_space_def)
lemma not_KMB_space: "is_space c \<Longrightarrow> \<not> is_KMB c" by (auto simp: is_KMB_def is_space_def)

text \<open>The texts that the pattern describes: a number, then an optional suffix letter, with optional
  white space before, between and after.\<close>

definition decimal_number :: "pystr \<Rightarrow> bool" where
  "decimal_number s \<longleftrightarrow>
     (case dropWhile is_ascii_digit s of
        [] \<Rightarrow> s \<noteq> []
      | c # fp \<Rightarrow> c = 0x2e \<and> fp \<noteq> [] \<and> list_all is_ascii_digit fp)"

definition suffix_letter :: "pystr \<Rightarrow> bool" where
  "suffix_letter g \<longleftrightarrow> (case g of [] \<Rightarrow> True | [c] \<Rightarrow> is_KMB c | _ \<Rightarrow> False)"

lemma decimal_number_cases:
  assumes "decimal_number s"
  obtains (int) "s \<noteq> []" "list_all is_ascii_digit s"
  | (frac) ip fp where "s = ip @ 0x2e # fp" "list_all is_ascii_digit ip" "fp \<noteq> []" "list_all is_ascii_digit fp"
proof (cases "dropWhile is_ascii_digit s")
  case Nil
  then have "list_all is_ascii_digit s" by (simp add: list_all_iff)
  moreover from assms[unfolded decimal_number_def Nil] have "s \<noteq> []" by simp
  ultimately show ?thesis by (rule int[rotated])
next
  case (Cons c fp)
  from assms[unfolded decimal_number_def Cons]
  have c: "c = 0x2e" "fp \<noteq> []" "list_all is_ascii_digit fp" by simp_all
  have "s = takeWhile is_ascii_digit s @ c # fp" using Cons by (metis takeWhile_dropWhile_id)
  moreover have "list_all is_ascii_digit (takeWhile is_ascii_digit s)"
    by (simp add: list_all_iff) (meson set_takeWhileD)
  ultimately show ?thesis using c frac by blast
qed

lemma suffix_letter_cases:
  assumes "suffix_letter g"
  obtains "g = []" | c where "g = [c]" "is_KMB c"
  using assms by (auto simp: suffix_letter_def split: list.splits)

lemma stop_append:
  "xs = [] \<or> Q (hd xs) \<Longrightarrow> ys = [] \<or> Q (hd ys) \<Longrightarrow> xs @ ys = [] \<or> Q (hd (xs @ ys))"
  by (cases xs) auto

lemma stop_all: "list_all P xs \<Longrightarrow> (\<And>c. P c \<Longrightarrow> Q c) \<Longrightarrow> xs = [] \<or> Q (hd xs)"
  by (cases xs) auto

lemma stop_suffix:
  assumes "suffix_letter g" and "\<And>c. is_KMB c \<Longrightarrow> Q c"
  shows "g = [] \<or> Q (hd g)"
  by (rule suffix_letter_cases[OF assms(1)]) (auto intro: assms(2))

lemma DAMAGE_RE_tail:
  assumes w: "list_all is_space w2" "list_all is_space w3" and g: "suffix_letter sfx"
  defines "r3 \<equiv> dropWhile is_space (w2 @ sfx @ w3)"
  shows "(case r3 of c # r \<Rightarrow> if is_KMB c then [c] else [] | [] \<Rightarrow> []) = sfx"
    and "dropWhile is_space (drop (length sfx) r3) = []"
proof -
  have dw: "dropWhile is_space w3 = []" using w(2) by (simp add: list_all_iff)
  have r3: "r3 = dropWhile is_space (sfx @ w3)"
    unfolding r3_def using w(1) by (simp add: dropWhile_append2 list_all_iff)
  have "(case r3 of c # r \<Rightarrow> if is_KMB c then [c] else [] | [] \<Rightarrow> []) = sfx \<and>
        dropWhile is_space (drop (length sfx) r3) = []"
  proof (rule suffix_letter_cases[OF g])
    assume e: "sfx = []"
    then have "r3 = []" using r3 dw by (simp only: append_Nil)
    with e show ?thesis by simp
  next
    fix c assume c: "sfx = [c]" "is_KMB c"
    then have "r3 = c # w3" using r3 by (simp add: not_space_KMB)
    with c dw show ?thesis by (simp del: dropWhile_eq_Nil_conv)
  qed
  then show "(case r3 of c # r \<Rightarrow> if is_KMB c then [c] else [] | [] \<Rightarrow> []) = sfx"
    and "dropWhile is_space (drop (length sfx) r3) = []" by blast+
qed

lemma DAMAGE_RE_complete:
  assumes w: "list_all is_space w1" "list_all is_space w2" "list_all is_space w3"
    and n: "decimal_number num" and g: "suffix_letter sfx"
  shows "DAMAGE_RE (w1 @ num @ w2 @ sfx @ w3) = Some (num, sfx)"
proof -
  define tail where "tail = w2 @ sfx @ w3"
  have tail_nd: "tail = [] \<or> \<not> is_ascii_digit (hd tail)"
    unfolding tail_def
    by (intro stop_append stop_all[OF w(2)] stop_all[OF w(3)] stop_suffix[OF g])
       (simp_all add: not_digit_space not_digit_KMB)
  have tail_ndot: "tail = [] \<or> hd tail \<noteq> 0x2e"
    unfolding tail_def
    by (intro stop_append stop_all[OF w(2)] stop_all[OF w(3)] stop_suffix[OF g])
       (simp_all add: not_dot_space not_dot_KMB)
  note tl = DAMAGE_RE_tail[OF w(2) w(3) g, folded tail_def]
  have num_ns: "num \<noteq> [] \<and> \<not> is_space (hd num)"
  proof (rule decimal_number_cases[OF n])
    assume "num \<noteq> []" "list_all is_ascii_digit num"
    then show ?thesis by (cases num) (auto simp: not_space_digit)
  next
    fix ip fp assume "num = ip @ 0x2e # fp" "list_all is_ascii_digit ip"
    then show ?thesis by (cases ip) (auto simp: not_space_digit not_space_dot)
  qed
  then have "num @ tail = [] \<or> \<not> is_space (hd (num @ tail))" by simp
  from span_append(2)[OF w(1) this]
  have r0: "dropWhile is_space (w1 @ num @ tail) = num @ tail" .
  show ?thesis
  proof (rule decimal_number_cases[OF n])
    assume d: "num \<noteq> []" "list_all is_ascii_digit num"
    have ip: "takeWhile is_ascii_digit (num @ tail) = num" "dropWhile is_ascii_digit (num @ tail) = tail"
      using span_append[OF d(2) tail_nd] by simp_all
    have nodot: "(case tail of c # r \<Rightarrow> c = 0x2e \<and> takeWhile is_ascii_digit r \<noteq> [] | [] \<Rightarrow> False) = False"
      using tail_ndot by (cases tail) auto
    show ?thesis
      unfolding DAMAGE_RE_def tail_def[symmetric] Let_def r0 ip nodot
      using d(1) by (simp only: if_False tl append_Nil2) simp
  next
    fix ip fp
    assume d: "num = ip @ 0x2e # fp" "list_all is_ascii_digit ip" "fp \<noteq> []" "list_all is_ascii_digit fp"
    have "0x2e # fp @ tail = [] \<or> \<not> is_ascii_digit (hd (0x2e # fp @ tail))"
      using not_digit_dot by simp
    from span_append[OF d(2) this]
    have s1: "takeWhile is_ascii_digit (num @ tail) = ip"
       "dropWhile is_ascii_digit (num @ tail) = 0x2e # fp @ tail"
      by (simp_all add: d(1))
    have s2: "takeWhile is_ascii_digit (fp @ tail) = fp" "dropWhile is_ascii_digit (fp @ tail) = tail"
      using span_append[OF d(4) tail_nd] by simp_all
    have dot: "(case 0x2e # fp @ tail of c # r \<Rightarrow> c = 0x2e \<and> takeWhile is_ascii_digit r \<noteq> [] | [] \<Rightarrow> False) = True"
      using s2 d(3) by simp
    show ?thesis
      unfolding DAMAGE_RE_def tail_def[symmetric] Let_def r0 s1 dot
      by (simp only: if_True list.sel s2 tl d(1)) simp
  qed
qed

lemma list_all_takeWhile: "list_all P (takeWhile P xs)"
  by (induction xs) auto

lemma DAMAGE_RE_sound:
  assumes "DAMAGE_RE s = Some (g1, g2)"
  shows "\<exists>w1 w2 w3. s = w1 @ g1 @ w2 @ g2 @ w3 \<and>
           list_all is_space w1 \<and> list_all is_space w2 \<and> list_all is_space w3 \<and>
           decimal_number g1 \<and> suffix_letter g2"
proof -
  define r0 where "r0 = dropWhile is_space s"
  define ip where "ip = takeWhile is_ascii_digit r0"
  define r1 where "r1 = dropWhile is_ascii_digit r0"
  define dot where "dot = (case r1 of c # r \<Rightarrow> c = 0x2e \<and> takeWhile is_ascii_digit r \<noteq> [] | [] \<Rightarrow> False)"
  define fp where "fp = (if dot then 0x2e # takeWhile is_ascii_digit (tl r1) else [])"
  define r2 where "r2 = (if dot then dropWhile is_ascii_digit (tl r1) else r1)"
  define r3 where "r3 = dropWhile is_space r2"
  define h2 where "h2 = (case r3 of c # r \<Rightarrow> if is_KMB c then [c] else [] | [] \<Rightarrow> [])"
  define r4 where "r4 = dropWhile is_space (drop (length h2) r3)"
  have re: "DAMAGE_RE s = (if (dot \<or> ip \<noteq> []) \<and> r4 = [] then Some (ip @ fp, h2) else None)"
    unfolding DAMAGE_RE_def Let_def r0_def ip_def r1_def dot_def fp_def r2_def r3_def h2_def r4_def ..
  with assms have ok: "dot \<or> ip \<noteq> []" "r4 = []" and g1: "g1 = ip @ fp" and g2: "g2 = h2"
    by (auto split: if_splits)
  have s: "s = takeWhile is_space s @ r0" by (simp add: r0_def)
  have r0: "r0 = ip @ r1" by (simp add: ip_def r1_def)
  have r1: "r1 = fp @ r2"
  proof (cases dot)
    case True
    then obtain r where "r1 = 0x2e # r" by (auto simp: dot_def split: list.splits)
    with True show ?thesis by (simp add: fp_def r2_def)
  next
    case False
    then show ?thesis by (simp add: fp_def r2_def)
  qed
  have r2: "r2 = takeWhile is_space r2 @ r3" by (simp add: r3_def)
  have r3: "r3 = h2 @ drop (length h2) r3"
    by (cases r3) (auto simp: h2_def)
  have w3: "list_all is_space (drop (length h2) r3)"
    using ok(2) by (simp add: r4_def list_all_iff)
  have sfx: "suffix_letter h2"
    by (cases r3) (auto simp: h2_def suffix_letter_def)
  have ipd: "list_all is_ascii_digit ip" unfolding ip_def by (rule list_all_takeWhile)
  have num: "decimal_number (ip @ fp)"
  proof (cases dot)
    case True
    define fd where "fd = takeWhile is_ascii_digit (tl r1)"
    from True have fd: "fd \<noteq> []" by (auto simp: dot_def fd_def split: list.splits)
    have fdd: "list_all is_ascii_digit fd" unfolding fd_def by (rule list_all_takeWhile)
    have fp': "fp = 0x2e # fd" using True by (simp add: fp_def fd_def)
    have "0x2e # fd = [] \<or> \<not> is_ascii_digit (hd (0x2e # fd))" using not_digit_dot by simp
    from span_append(2)[OF ipd this]
    have "dropWhile is_ascii_digit (ip @ fp) = 0x2e # fd" by (simp add: fp')
    then show ?thesis using fd fdd by (simp add: decimal_number_def)
  next
    case False
    with ok have "ip \<noteq> []" by simp
    moreover have "dropWhile is_ascii_digit ip = []" using ipd by (simp add: list_all_iff)
    ultimately show ?thesis using False by (simp add: decimal_number_def fp_def del: dropWhile_eq_Nil_conv)
  qed
  have "s = takeWhile is_space s @ (ip @ fp) @ takeWhile is_space r2 @ h2 @ drop (length h2) r3"
    using s r0 r1 r2 r3 by (metis append.assoc)
  with w3 sfx num show ?thesis
    unfolding g1 g2 using list_all_takeWhile[of is_space] by blast
qed

lemma strip_decomp:
  "\<exists>a b. s = a @ strip s @ b \<and> list_all is_space a \<and> list_all is_space b"
proof -
  define u where "u = dropWhile is_space s"
  have 1: "s = takeWhile is_space s @ u" by (simp add: u_def)
  have "u = rev (takeWhile is_space (rev u) @ dropWhile is_space (rev u))"
    by (simp only: takeWhile_dropWhile_id rev_rev_ident)
  also have "\<dots> = rev (dropWhile is_space (rev u)) @ rev (takeWhile is_space (rev u))"
    by (simp only: rev_append)
  also have "rev (dropWhile is_space (rev u)) = strip s" by (simp only: strip_def u_def)
  finally have 2: "u = strip s @ rev (takeWhile is_space (rev u))" .
  have "list_all is_space (rev (takeWhile is_space (rev u)))"
    using list_all_takeWhile[of is_space "rev u"] by (simp add: list_all_iff)
  with 1 2 list_all_takeWhile[of is_space s] show ?thesis by metis
qed

lemma strip_core:
  assumes "list_all is_space a" "list_all is_space b" "t \<noteq> []"
    "\<not> is_space (hd t)" "\<not> is_space (last t)"
  shows "strip (a @ t @ b) = t"
proof -
  have "t @ b = [] \<or> \<not> is_space (hd (t @ b))" using assms(3,4) by simp
  from span_append(2)[OF assms(1) this] have 1: "dropWhile is_space (a @ t @ b) = t @ b" .
  have rb: "list_all is_space (rev b)" using assms(2) by (simp add: list_all_iff)
  have "rev t = [] \<or> \<not> is_space (hd (rev t))" using assms(3,5) by (simp add: hd_rev)
  from span_append(2)[OF rb this] have "dropWhile is_space (rev b @ rev t) = rev t" .
  with 1 show ?thesis by (simp add: strip_def)
qed

lemma strip_spaces:
  assumes "list_all is_space s"
  shows "strip s = []"
proof -
  have d: "dropWhile is_space s = []" using assms by (simp add: list_all_iff)
  show ?thesis unfolding strip_def d by simp
qed

lemma upper_cp_fixed: "is_ascii_digit c \<or> c = 0x2e \<Longrightarrow> upper_cp c = [c]"
  by (auto simp: upper_cp_def is_ascii_digit_def)

lemma decimal_number_hd:
  assumes "decimal_number num"
  shows "num \<noteq> [] \<and> (is_ascii_digit (hd num) \<or> hd num = 0x2e)"
proof (rule decimal_number_cases[OF assms])
  assume "num \<noteq> []" "list_all is_ascii_digit num"
  then show ?thesis by (cases num) auto
next
  fix ip fp assume "num = ip @ 0x2e # fp" "list_all is_ascii_digit ip"
  then show ?thesis by (cases ip) auto
qed

lemma decimal_number_last:
  assumes "decimal_number num"
  shows "is_ascii_digit (last num)"
proof (rule decimal_number_cases[OF assms])
  assume "num \<noteq> []" "list_all is_ascii_digit num"
  then show ?thesis by (simp add: list_all_iff)
next
  fix ip fp assume "num = ip @ 0x2e # fp" "fp \<noteq> []" "list_all is_ascii_digit fp"
  then show ?thesis by (simp add: list_all_iff)
qed

lemma not_NA:
  assumes "t \<noteq> []" "is_ascii_digit (hd t) \<or> hd t = 0x2e"
  shows "py_upper t \<noteq> ustr ''NA''" "py_upper t \<noteq> ustr ''N/A''"
proof -
  from assms obtain c r where t: "t = c # r" by (cases t) auto
  with assms have "upper_cp c = [c]" by (simp add: upper_cp_fixed)
  then have "py_upper t = c # py_upper r" by (simp add: py_upper_def t)
  moreover have "c \<noteq> 78" using assms t by (auto simp: is_ascii_digit_def)
  ultimately show "py_upper t \<noteq> ustr ''NA''" "py_upper t \<noteq> ustr ''N/A''"
    by (simp_all add: ustr_def)
qed

text \<open>The factor that the specification gives to a suffix.\<close>

definition multiplier :: "pystr \<Rightarrow> rat" where
  "multiplier sfx =
     (if sfx = ustr ''K'' \<or> sfx = ustr ''k'' then 1000
      else if sfx = ustr ''M'' \<or> sfx = ustr ''m'' then 1000000
      else if sfx = ustr ''B'' \<or> sfx = ustr ''b'' then 1000000000
      else 1)"

definition ascii_suffix :: "pystr \<Rightarrow> bool" where
  "ascii_suffix sfx \<longleftrightarrow> sfx \<in> {[], ustr ''K'', ustr ''k'', ustr ''M'', ustr ''m'', ustr ''B'', ustr ''b''}"

lemma ascii_suffix_letter: "ascii_suffix sfx \<Longrightarrow> suffix_letter sfx"
  by (auto simp: ascii_suffix_def suffix_letter_def is_KMB_def ustr_def)

lemma parse_damage_str_match:
  assumes w: "list_all is_space w1" "list_all is_space w2" "list_all is_space w3"
    and n: "decimal_number num" and g: "suffix_letter sfx"
  shows "parse_damage_str (w1 @ num @ w2 @ sfx @ w3) =
           fmul (float_of_str num)
             (if py_upper sfx = ustr ''K'' then Finite 1000
              else if py_upper sfx = ustr ''M'' then Finite 1000000
              else if py_upper sfx = ustr ''B'' then Finite 1000000000
              else Finite 1)"
proof -
  define t where "t = (if sfx = [] then num else num @ w2 @ sfx)"
  note hd = decimal_number_hd[OF n]
  have t_ne: "t \<noteq> []" using hd by (simp add: t_def)
  have t_hd: "hd t = hd num" using hd by (simp add: t_def)
  have t_last: "\<not> is_space (last t)"
  proof (cases "sfx = []")
    case True
    then show ?thesis using decimal_number_last[OF n] by (simp add: t_def not_space_digit)
  next
    case False
    with g obtain c where "sfx = [c]" "is_KMB c" by (auto elim: suffix_letter_cases)
    then show ?thesis by (simp add: t_def not_space_KMB)
  qed
  have t_hd_ns: "\<not> is_space (hd t)" using hd t_hd by (auto simp: not_space_digit not_space_dot)
  have "\<exists>b. w1 @ num @ w2 @ sfx @ w3 = w1 @ t @ b \<and> list_all is_space b"
    using w by (cases "sfx = []") (auto simp: t_def)
  then obtain b where b: "w1 @ num @ w2 @ sfx @ w3 = w1 @ t @ b" "list_all is_space b" by blast
  have st: "strip (w1 @ num @ w2 @ sfx @ w3) = t"
    unfolding b(1) by (rule strip_core[OF w(1) b(2) t_ne t_hd_ns t_last])
  have re: "DAMAGE_RE t = Some (num, sfx)"
  proof (cases "sfx = []")
    case True
    with DAMAGE_RE_complete[of "[]" "[]" "[]" num "[]"] n show ?thesis
      by (simp add: t_def suffix_letter_def)
  next
    case False
    with DAMAGE_RE_complete[of "[]" w2 "[]" num sfx] n g w(2) show ?thesis
      by (simp add: t_def)
  qed
  have na: "py_upper t \<noteq> ustr ''NA''" "py_upper t \<noteq> ustr ''N/A''"
    using not_NA[OF t_ne] hd t_hd by simp_all
  show ?thesis
    unfolding parse_damage_str_def Let_def st
    using t_ne na re by (simp only: if_False simp_thms option.case prod.case)
qed

lemma parse_damage_str_no_match:
  assumes "\<not> (\<exists>w1 num w2 sfx w3. s = w1 @ num @ w2 @ sfx @ w3 \<and>
              list_all is_space w1 \<and> list_all is_space w2 \<and> list_all is_space w3 \<and>
              decimal_number num \<and> suffix_letter sfx)"
  shows "parse_damage_str s = Finite 0"
proof (cases "DAMAGE_RE (strip s)")
  case None
  then show ?thesis by (simp add: parse_damage_str_def Let_def)
next
  case (Some m)
  obtain g1 g2 where m: "m = (g1, g2)" by (cases m)
  from DAMAGE_RE_sound[OF Some[unfolded m]] obtain w1 w2 w3 where
    d: "strip s = w1 @ g1 @ w2 @ g2 @ w3" "list_all is_space w1" "list_all is_space w2"
       "list_all is_space w3" "decimal_number g1" "suffix_letter g2" by blast
  from strip_decomp[of s] obtain a b where
    ab: "s = a @ strip s @ b" "list_all is_space a" "list_all is_space b" by blast
  have "s = (a @ w1) @ g1 @ w2 @ g2 @ (w3 @ b)" using ab(1) d(1) by simp
  moreover have "list_all is_space (a @ w1)" "list_all is_space (w3 @ b)"
    using ab d by simp_all
  ultimately have "\<exists>w1 num w2 sfx w3. s = w1 @ num @ w2 @ sfx @ w3 \<and>
              list_all is_space w1 \<and> list_all is_space w2 \<and> list_all is_space w3 \<and>
              decimal_number num \<and> suffix_letter sfx" using d by blast
  with assms show ?thesis by simp
qed

lemma float_of_int_raises_iff:
  "(\<exists>e. float_of_int n = Inl e) \<longleftrightarrow> 2 ^ 1024 - 2 ^ 970 \<le> \<bar>n\<bar>"
proof -
  have "(\<exists>e. float_of_int n = Inl e) \<longleftrightarrow> round_double \<bar>of_int n\<bar> = None"
    by (auto simp: float_of_int_def split: option.splits)
  also have "\<dots> \<longleftrightarrow> pow2 1024 - pow2 970 \<le> \<bar>of_int n\<bar>"
    by (rule round_double_None_iff) simp
  also have "pow2 1024 - pow2 970 = of_int (2 ^ 1024 - 2 ^ 970)" by (simp add: pow2_def)
  also have "of_int (2 ^ 1024 - 2 ^ 970) \<le> \<bar>rat_of_int n\<bar> \<longleftrightarrow> 2 ^ 1024 - 2 ^ 970 \<le> \<bar>n\<bar>"
    by (metis of_int_abs of_int_le_iff)
  finally show ?thesis .
qed

lemma float_of_int_exact:
  assumes "\<bar>n\<bar> < 2 ^ 53"
  shows "float_of_int n = Inr (Finite (of_int n))"
proof (cases "n = 0")
  case True
  then show ?thesis by (simp add: float_of_int_def round_double_def)
next
  case False
  with assms have "0 < \<bar>n\<bar>" "\<bar>n\<bar> < 2 ^ 53" by simp_all
  from round_double_exact[OF this, of 0]
  have "round_double \<bar>of_int n\<bar> = Some \<bar>of_int n\<bar>" by (simp add: pow2_def)
  then show ?thesis by (simp add: float_of_int_def)
qed

lemma DAMAGE_RE_Some_iff:
  "(\<exists>w1 num w2 sfx w3. s = w1 @ num @ w2 @ sfx @ w3 \<and>
       list_all is_space w1 \<and> list_all is_space w2 \<and> list_all is_space w3 \<and>
       decimal_number num \<and> suffix_letter sfx) \<longleftrightarrow> DAMAGE_RE s \<noteq> None"
proof
  assume "\<exists>w1 num w2 sfx w3. s = w1 @ num @ w2 @ sfx @ w3 \<and>
       list_all is_space w1 \<and> list_all is_space w2 \<and> list_all is_space w3 \<and>
       decimal_number num \<and> suffix_letter sfx"
  then obtain w1 num w2 sfx w3 where "s = w1 @ num @ w2 @ sfx @ w3"
       "list_all is_space w1" "list_all is_space w2" "list_all is_space w3"
       "decimal_number num" "suffix_letter sfx" by blast
  with DAMAGE_RE_complete[of w1 w2 w3 num sfx] show "DAMAGE_RE s \<noteq> None" by simp
next
  assume "DAMAGE_RE s \<noteq> None"
  then obtain g1 g2 where "DAMAGE_RE s = Some (g1, g2)" by auto
  from DAMAGE_RE_sound[OF this] show "\<exists>w1 num w2 sfx w3. s = w1 @ num @ w2 @ sfx @ w3 \<and>
       list_all is_space w1 \<and> list_all is_space w2 \<and> list_all is_space w3 \<and>
       decimal_number num \<and> suffix_letter sfx" by blast
qed

lemma ascii_suffix_multiplier:
  assumes "ascii_suffix sfx"
  shows "(if py_upper sfx = ustr ''K'' then Finite 1000
          else if py_upper sfx = ustr ''M'' then Finite 1000000
          else if py_upper sfx = ustr ''B'' then Finite 1000000000
          else Finite 1) = Finite (multiplier sfx)"
proof -
  from assms consider "sfx = []" | "sfx = ustr ''K''" | "sfx = ustr ''k''" | "sfx = ustr ''M''"
    | "sfx = ustr ''m''" | "sfx = ustr ''B''" | "sfx = ustr ''b''"
    unfolding ascii_suffix_def by blast
  then show ?thesis
    by cases (simp_all add: py_upper_def upper_cp_def multiplier_def ustr_def)
qed

text \<open>
  Claim C2, amended. \<open>parse_damage_to_dollars\<close> obeys these rules: \<^verbatim>\<open>None\<close>, and a string that
  is empty, \<^verbatim>\<open>NA\<close> or \<^verbatim>\<open>N/A\<close> (in any case, with white space around) give \<open>0.0\<close>; a float
  that is not a NaN is returned as it is; an int of magnitude below \<open>2 ^ 53\<close> is returned as the
  equal float, and an int raises \<^verbatim>\<open>OverflowError\<close> exactly when its magnitude is at least
  \<open>2 ^ 1024 - 2 ^ 970\<close>; nothing else raises. A string made of a decimal number and an optional
  suffix among the ASCII letters K, M, B in either case, with optional white space before,
  between and after, gives the float of the number times 1, 1000, 1000000 or 1000000000 in
  float arithmetic. A string that is not a decimal number with an optional suffix (the suffix
  that \<^verbatim>\<open>[KMB]\<close> matches when case is ignored) gives \<open>0.0\<close>.
\<close>

theorem parse_damage_to_dollars_rules:
  "parse_damage_to_dollars PyNone = Inr (Finite 0) \<and>
   (\<forall>s. strip s = [] \<or> py_upper (strip s) = ustr ''NA'' \<or> py_upper (strip s) = ustr ''N/A'' \<longrightarrow>
      parse_damage_to_dollars (PyStr s) = Inr (Finite 0)) \<and>
   (\<forall>x. x \<noteq> NaN \<longrightarrow> parse_damage_to_dollars (PyFloat x) = Inr x) \<and>
   (\<forall>n. \<bar>n\<bar> < 2 ^ 53 \<longrightarrow> parse_damage_to_dollars (PyInt n) = Inr (Finite (of_int n))) \<and>
   (\<forall>n. (\<exists>e. parse_damage_to_dollars (PyInt n) = Inl e) \<longleftrightarrow> 2 ^ 1024 - 2 ^ 970 \<le> \<bar>n\<bar>) \<and>
   (\<forall>v e. parse_damage_to_dollars v = Inl e \<longrightarrow> e = OverflowError \<and> (\<exists>n. v = PyInt n)) \<and>
   (\<forall>w1 num w2 sfx w3.
      list_all is_space w1 \<and> list_all is_space w2 \<and> list_all is_space w3 \<and>
      decimal_number num \<and> ascii_suffix sfx \<longrightarrow>
      parse_damage_to_dollars (PyStr (w1 @ num @ w2 @ sfx @ w3)) =
        Inr (fmul (float_of_str num) (Finite (multiplier sfx)))) \<and>
   (\<forall>s. \<not> (\<exists>w1 num w2 sfx w3. s = w1 @ num @ w2 @ sfx @ w3 \<and>
              list_all is_space w1 \<and> list_all is_space w2 \<and> list_all is_space w3 \<and>
              decimal_number num \<and> suffix_letter sfx) \<longrightarrow>
      parse_damage_to_dollars (PyStr s) = Inr (Finite 0))"
proof (intro conjI allI impI)
  show "parse_damage_to_dollars PyNone = Inr (Finite 0)" by simp
next
  fix s assume "strip s = [] \<or> py_upper (strip s) = ustr ''NA'' \<or> py_upper (strip s) = ustr ''N/A''"
  then show "parse_damage_to_dollars (PyStr s) = Inr (Finite 0)"
    by (simp add: parse_damage_str_def Let_def)
next
  fix x :: pyfloat assume "x \<noteq> NaN"
  then show "parse_damage_to_dollars (PyFloat x) = Inr x" by simp
next
  fix n :: int assume "\<bar>n\<bar> < 2 ^ 53"
  then show "parse_damage_to_dollars (PyInt n) = Inr (Finite (of_int n))"
    by (simp add: float_of_int_exact)
next
  fix n show "(\<exists>e. parse_damage_to_dollars (PyInt n) = Inl e) \<longleftrightarrow> 2 ^ 1024 - 2 ^ 970 \<le> \<bar>n\<bar>"
    using float_of_int_raises_iff[of n] by simp
next
  fix v e assume "parse_damage_to_dollars v = Inl e"
  then show "e = OverflowError" "\<exists>n. v = PyInt n"
    by (cases v; auto simp: float_of_int_def split: option.splits if_splits)+
next
  fix w1 num w2 sfx w3
  assume a: "list_all is_space w1 \<and> list_all is_space w2 \<and> list_all is_space w3 \<and>
      decimal_number num \<and> ascii_suffix sfx"
  then have "parse_damage_str (w1 @ num @ w2 @ sfx @ w3) =
      fmul (float_of_str num)
             (if py_upper sfx = ustr ''K'' then Finite 1000
              else if py_upper sfx = ustr ''M'' then Finite 1000000
              else if py_upper sfx = ustr ''B'' then Finite 1000000000
              else Finite 1)"
    by (intro parse_damage_str_match ascii_suffix_letter) simp_all
  with a show "parse_damage_to_dollars (PyStr (w1 @ num @ w2 @ sfx @ w3)) =
        Inr (fmul (float_of_str num) (Finite (multiplier sfx)))"
    by (simp add: ascii_suffix_multiplier)
next
  fix s
  assume "\<not> (\<exists>w1 num w2 sfx w3. s = w1 @ num @ w2 @ sfx @ w3 \<and>
              list_all is_space w1 \<and> list_all is_space w2 \<and> list_all is_space w3 \<and>
              decimal_number num \<and> suffix_letter sfx)"
  from parse_damage_str_no_match[OF this]
  show "parse_damage_to_dollars (PyStr s) = Inr (Finite 0)" by simp
qed

lemma signed_round_exact:
  assumes "0 < m" "m < 2 ^ 53" "- 1074 \<le> k" "k \<le> 971" "q = of_int m * pow2 k"
  shows "signed_round False q = Finite q"
  using round_double_exact[OF assms(1-4)] assms(5) by (simp add: signed_round_def)

lemma fmul_positive:
  "0 < a \<Longrightarrow> 0 < b \<Longrightarrow> fmul (Finite a) (Finite b) = signed_round False (a * b)"
  by (simp add: fmul_def is_inf_def)

lemmas damage_eval = DAMAGE_RE_def Let_def is_space_def is_ascii_digit_def is_KMB_def ustr_def
  decimal_value_def py_int_def decimal_number_def ascii_suffix_def multiplier_def strip_def
  py_upper_def upper_cp_def

lemma float_of_str_examples:
  "float_of_str (ustr ''10.5'') = Finite (21 / 2)"
  "float_of_str (ustr ''2'') = Finite 2"
  "float_of_str (ustr ''0.75'') = Finite (3 / 4)"
  "float_of_str (ustr ''500'') = Finite 500"
  "float_of_str (ustr ''5'') = Finite 5"
proof -
  have v: "decimal_value (ustr ''10.5'') = 21 / 2" "decimal_value (ustr ''2'') = 2"
    "decimal_value (ustr ''0.75'') = 3 / 4" "decimal_value (ustr ''500'') = 500"
    "decimal_value (ustr ''5'') = 5"
    by (simp_all add: damage_eval)
  show "float_of_str (ustr ''10.5'') = Finite (21 / 2)"
    unfolding float_of_str_def v by (rule signed_round_exact[of 21 "- 1"]) (simp_all add: pow2_def)
  show "float_of_str (ustr ''2'') = Finite 2"
    unfolding float_of_str_def v by (rule signed_round_exact[of 2 0]) (simp_all add: pow2_def)
  show "float_of_str (ustr ''0.75'') = Finite (3 / 4)"
    unfolding float_of_str_def v by (rule signed_round_exact[of 3 "- 2"]) (simp_all add: pow2_def)
  show "float_of_str (ustr ''500'') = Finite 500"
    unfolding float_of_str_def v by (rule signed_round_exact[of 500 0]) (simp_all add: pow2_def)
  show "float_of_str (ustr ''5'') = Finite 5"
    unfolding float_of_str_def v by (rule signed_round_exact[of 5 0]) (simp_all add: pow2_def)
qed

lemma fmul_examples:
  "fmul (Finite (21 / 2)) (Finite 1000) = Finite 10500"
  "fmul (Finite 2) (Finite 1000000) = Finite 2000000"
  "fmul (Finite (3 / 4)) (Finite 1000000000) = Finite 750000000"
  "fmul (Finite 500) (Finite 1) = Finite 500"
  "fmul (Finite 5) (Finite 1) = Finite 5"
proof -
  show "fmul (Finite (21 / 2)) (Finite 1000) = Finite 10500"
    using signed_round_exact[of 10500 0 10500] by (simp add: fmul_positive pow2_def)
  show "fmul (Finite 2) (Finite 1000000) = Finite 2000000"
    using signed_round_exact[of 2000000 0 2000000] by (simp add: fmul_positive pow2_def)
  show "fmul (Finite (3 / 4)) (Finite 1000000000) = Finite 750000000"
    using signed_round_exact[of 750000000 0 750000000] by (simp add: fmul_positive pow2_def)
  show "fmul (Finite 500) (Finite 1) = Finite 500"
    using signed_round_exact[of 500 0 500] by (simp add: fmul_positive pow2_def)
  show "fmul (Finite 5) (Finite 1) = Finite 5"
    using signed_round_exact[of 5 0 5] by (simp add: fmul_positive pow2_def)
qed

lemma DAMAGE_RE_examples:
  "DAMAGE_RE (ustr ''garbage'') = None"
  "DAMAGE_RE (ustr ''nan'') = None"
  "DAMAGE_RE [0x35, 0x212a] = Some ([0x35], [0x212a])"
  by (simp_all add: damage_eval)

lemma multiplier_examples:
  "multiplier (ustr ''K'') = 1000" "multiplier (ustr ''M'') = 1000000"
  "multiplier (ustr ''B'') = 1000000000" "multiplier [] = 1"
  by (simp_all add: multiplier_def ustr_def)

lemma parse_damage_str_nan: "parse_damage_str (ustr ''nan'') = Finite 0"
proof -
  have s: "strip (ustr ''nan'') = ustr ''nan''" by (simp add: strip_def is_space_def ustr_def)
  show ?thesis unfolding parse_damage_str_def Let_def s DAMAGE_RE_examples by simp
qed

theorem parse_damage_to_dollars_rules_witness:
  "parse_damage_to_dollars (PyStr (ustr ''10.5K'')) = Inr (Finite 10500) \<and>
   parse_damage_to_dollars (PyStr (ustr ''2M'')) = Inr (Finite 2000000) \<and>
   parse_damage_to_dollars (PyStr (ustr ''0.75B'')) = Inr (Finite 750000000) \<and>
   parse_damage_to_dollars (PyStr (ustr ''500'')) = Inr (Finite 500) \<and>
   parse_damage_to_dollars (PyStr []) = Inr (Finite 0) \<and>
   parse_damage_to_dollars (PyStr (ustr ''NA'')) = Inr (Finite 0) \<and>
   parse_damage_to_dollars (PyStr (ustr ''N/A'')) = Inr (Finite 0) \<and>
   parse_damage_to_dollars PyNone = Inr (Finite 0) \<and>
   parse_damage_to_dollars (PyStr (ustr ''garbage'')) = Inr (Finite 0) \<and>
   parse_damage_to_dollars (PyFloat (Finite (4341751515761869 / 35184372088832))) =
     Inr (Finite (4341751515761869 / 35184372088832)) \<and>
   parse_damage_to_dollars (PyInt 7) = Inr (Finite 7) \<and>
   \<not> (\<exists>e. parse_damage_to_dollars (PyInt (2 ^ 1023)) = Inl e)"
proof -
  note r = parse_damage_to_dollars_rules
  note m = r[THEN conjunct2, THEN conjunct2, THEN conjunct2, THEN conjunct2, THEN conjunct2,
      THEN conjunct2, THEN conjunct1, rule_format]
  have h: "list_all is_space [] \<and> list_all is_space [] \<and> list_all is_space [] \<and>
      decimal_number (ustr ''10.5'') \<and> ascii_suffix (ustr ''K'')"
    "list_all is_space [] \<and> list_all is_space [] \<and> list_all is_space [] \<and>
      decimal_number (ustr ''2'') \<and> ascii_suffix (ustr ''M'')"
    "list_all is_space [] \<and> list_all is_space [] \<and> list_all is_space [] \<and>
      decimal_number (ustr ''0.75'') \<and> ascii_suffix (ustr ''B'')"
    "list_all is_space [] \<and> list_all is_space [] \<and> list_all is_space [] \<and>
      decimal_number (ustr ''500'') \<and> ascii_suffix []"
    by (simp_all add: damage_eval)
  have e: "[] @ ustr ''10.5'' @ [] @ ustr ''K'' @ [] = ustr ''10.5K''"
    "[] @ ustr ''2'' @ [] @ ustr ''M'' @ [] = ustr ''2M''"
    "[] @ ustr ''0.75'' @ [] @ ustr ''B'' @ [] = ustr ''0.75B''"
    "[] @ ustr ''500'' @ [] @ [] @ [] = ustr ''500''"
    by (simp_all add: ustr_def)
  have 1: "parse_damage_to_dollars (PyStr (ustr ''10.5K'')) = Inr (Finite 10500)"
    using m[OF h(1)] unfolding e float_of_str_examples multiplier_examples fmul_examples .
  have 2: "parse_damage_to_dollars (PyStr (ustr ''2M'')) = Inr (Finite 2000000)"
    using m[OF h(2)] unfolding e float_of_str_examples multiplier_examples fmul_examples .
  have 3: "parse_damage_to_dollars (PyStr (ustr ''0.75B'')) = Inr (Finite 750000000)"
    using m[OF h(3)] unfolding e float_of_str_examples multiplier_examples fmul_examples .
  have 4: "parse_damage_to_dollars (PyStr (ustr ''500'')) = Inr (Finite 500)"
    using m[OF h(4)] unfolding e float_of_str_examples multiplier_examples fmul_examples .
  note na = r[THEN conjunct2, THEN conjunct1, rule_format]
  have 5: "parse_damage_to_dollars (PyStr []) = Inr (Finite 0)"
    by (rule na) (simp add: damage_eval)
  have 6: "parse_damage_to_dollars (PyStr (ustr ''NA'')) = Inr (Finite 0)"
    by (rule na) (simp add: damage_eval)
  have 7: "parse_damage_to_dollars (PyStr (ustr ''N/A'')) = Inr (Finite 0)"
    by (rule na) (simp add: damage_eval)
  have 8: "parse_damage_to_dollars PyNone = Inr (Finite 0)" using r by blast
  have 9: "parse_damage_to_dollars (PyStr (ustr ''garbage'')) = Inr (Finite 0)"
    by (rule r[THEN conjunct2, THEN conjunct2, THEN conjunct2, THEN conjunct2, THEN conjunct2,
      THEN conjunct2, THEN conjunct2, rule_format])
      (simp add: DAMAGE_RE_Some_iff DAMAGE_RE_examples)
  have 10: "parse_damage_to_dollars (PyFloat (Finite (4341751515761869 / 35184372088832))) =
     Inr (Finite (4341751515761869 / 35184372088832))"
    by (rule r[THEN conjunct2, THEN conjunct2, THEN conjunct1, rule_format]) simp
  have 11: "parse_damage_to_dollars (PyInt 7) = Inr (Finite 7)"
    using r[THEN conjunct2, THEN conjunct2, THEN conjunct2, THEN conjunct1, rule_format, of 7]
    by simp
  have 12: "\<not> (\<exists>e. parse_damage_to_dollars (PyInt (2 ^ 1023)) = Inl e)"
    using r[THEN conjunct2, THEN conjunct2, THEN conjunct2, THEN conjunct2, THEN conjunct1,
      rule_format, of "2 ^ 1023"]
    by simp
  from 1 2 3 4 5 6 7 8 9 10 11 12 show ?thesis by blast
qed

text \<open>
  Claim C2, as stated: the function is total and returns a numeric input as it is, and a string
  that is not a decimal number with an optional suffix K, M or B gives \<open>0.0\<close>. This fails for
  the int \<open>2 ^ 1024\<close>, where \<^verbatim>\<open>float(value)\<close> raises \<^verbatim>\<open>OverflowError\<close>. It also fails
  for the digit 5 followed by U+212A (KELVIN SIGN): the pattern, which ignores case, takes the
  sign for a suffix, \<^verbatim>\<open>upper()\<close> leaves it as it is, no factor applies, and the result is
  \<open>5.0\<close>.
\<close>

theorem parse_damage_to_dollars_total_counterexample:
  "parse_damage_to_dollars (PyInt (2 ^ 1024)) = Inl OverflowError \<and>
   parse_damage_to_dollars (PyStr [0x35, 0x212a]) = Inr (Finite 5)"
proof -
  have "\<exists>e. float_of_int (2 ^ 1024) = Inl e"
    unfolding float_of_int_raises_iff by simp
  then have 1: "parse_damage_to_dollars (PyInt (2 ^ 1024)) = Inl OverflowError"
    by (auto simp: float_of_int_def split: option.splits)
  have s: "strip [0x35, 0x212a] = [0x35, 0x212a]" by (simp add: strip_def is_space_def)
  have u: "py_upper [0x35, 0x212a] = [0x35, 0x212a]" "py_upper [0x212a] = [0x212a]"
    by (simp_all add: py_upper_def upper_cp_def)
  have f: "float_of_str [0x35] = Finite 5" using float_of_str_examples(5) by (simp add: ustr_def)
  have "parse_damage_str [0x35, 0x212a] = Finite 5"
    unfolding parse_damage_str_def Let_def s u DAMAGE_RE_examples
    by (simp add: f u fmul_examples ustr_def)
  then have 2: "parse_damage_to_dollars (PyStr [0x35, 0x212a]) = Inr (Finite 5)" by simp
  from 1 2 show ?thesis ..
qed

text \<open>
  Claim C10. For a float that is a NaN the function returns \<open>0.0\<close> and not the NaN:
  \<^verbatim>\<open>pd.isna\<close> sends it past the numeric return, its \<^verbatim>\<open>str\<close> is \<^verbatim>\<open>nan\<close>, and the
  pattern does not match that.
\<close>

theorem parse_damage_to_dollars_nan:
  "parse_damage_to_dollars (PyFloat NaN) = Inr (Finite 0) \<and>
   parse_damage_to_dollars (PyFloat NaN) \<noteq> Inr NaN"
  by (simp add: parse_damage_str_nan)

subsection \<open>Tables\<close>




subsection \<open>\<^verbatim>\<open>load_filter_tx_one_file\<close>\<close>










subsection \<open>\<^verbatim>\<open>main\<close>\<close>


























































end
